theory Spec2Isabelle
  imports Main "HOL-Library.AList"
begin

section \<open>Text and the Unicode tables\<close>

text \<open>
  A Python \<open>str\<close> is a sequence of Unicode code points. A code point is a natural
  number and a text is a list of them; \<open>asc\<close> writes an ASCII literal.
\<close>

type_synonym ustr = "nat list"

definition asc :: "string \<Rightarrow> ustr" where
  "asc = map of_char"

text \<open>
  \<open>text_parser.py\<close> calls \<open>unicodedata\<close>, \<open>re\<close> and \<open>datetime\<close>, which read the
  Unicode Character Database. The database is not part of the repository, so the rows
  the code consults are a parameter of the model:
  \<^item> \<open>decomposition c\<close>: the full compatibility decomposition of \<open>c\<close> (what NFKD puts
    in its place before reordering; \<open>[c]\<close> when there is none);
  \<^item> \<open>combining c\<close>: the canonical combining class, \<open>unicodedata.combining\<close>;
  \<^item> \<open>tolower\<close>, \<open>toupper\<close>: the simple case mappings \<open>re\<close> uses under IGNORECASE;
  \<^item> \<open>decimal c\<close>: the value of a decimal digit (what \<open>\d\<close> accepts and \<open>int\<close> reads);
  \<^item> \<open>isalnum c\<close>: \<open>str.isalnum\<close>, which with \<open>_\<close> makes the word characters of \<open>\b\<close>.
\<close>

record ucd =
  decomposition :: "nat \<Rightarrow> nat list"
  combining :: "nat \<Rightarrow> nat"
  tolower :: "nat \<Rightarrow> nat"
  toupper :: "nat \<Rightarrow> nat"
  decimal :: "nat \<Rightarrow> nat option"
  isalnum :: "nat \<Rightarrow> bool"

text \<open>
  \<open>str.isspace\<close>, which is also \<open>\s\<close> of a \<open>str\<close> pattern and what \<open>str.strip()\<close>
  removes: the complete list of CPython's whitespace code points.
\<close>

definition isspace :: "nat \<Rightarrow> bool" where
  "isspace c \<longleftrightarrow>
     (0x09 \<le> c \<and> c \<le> 0x0D) \<or> (0x1C \<le> c \<and> c \<le> 0x20) \<or> c = 0x85 \<or> c = 0xA0 \<or>
     c = 0x1680 \<or> (0x2000 \<le> c \<and> c \<le> 0x200A) \<or> c = 0x2028 \<or> c = 0x2029 \<or>
     c = 0x202F \<or> c = 0x205F \<or> c = 0x3000"

definition strip :: "ustr \<Rightarrow> ustr" where
  "strip t = rev (dropWhile isspace (rev (dropWhile isspace t)))"

section \<open>normalize_text\<close>

text \<open>
  \<open>unicodedata.normalize('NFKD', text)\<close>: every code point is replaced by its full
  decomposition, then every maximal run of code points of non-zero combining class is
  sorted by class, stably.
\<close>

function canonical_order :: "(nat \<Rightarrow> nat) \<Rightarrow> ustr \<Rightarrow> ustr" where
  "canonical_order ccc [] = []"
| "canonical_order ccc (c # cs) =
     (if ccc c = 0 then c # canonical_order ccc cs
      else sort_key ccc (c # takeWhile (\<lambda>x. ccc x \<noteq> 0) cs)
           @ canonical_order ccc (dropWhile (\<lambda>x. ccc x \<noteq> 0) cs))"
  by pat_completeness auto
termination
  by (relation "measure (\<lambda>(ccc, t). length t)")
     (auto simp: le_imp_less_Suc length_dropWhile_le)

definition nfkd :: "ucd \<Rightarrow> ustr \<Rightarrow> ustr" where
  "nfkd U text = canonical_order (combining U) (concat (map (decomposition U) text))"

text \<open>\<open>re.sub(r'\s+', ' ', text)\<close>: every maximal run of whitespace becomes one space.\<close>

function collapse_spaces :: "ustr \<Rightarrow> ustr" where
  "collapse_spaces [] = []"
| "collapse_spaces (c # cs) =
     (if isspace c then 0x20 # collapse_spaces (dropWhile isspace cs)
      else c # collapse_spaces cs)"
  by pat_completeness auto
termination
  by (relation "measure length") (auto simp: le_imp_less_Suc length_dropWhile_le)

text \<open>\<open>text.replace(a, b)\<close> for one-character \<open>a\<close> and \<open>b\<close>.\<close>

definition replace_char :: "nat \<Rightarrow> nat \<Rightarrow> ustr \<Rightarrow> ustr" where
  "replace_char a b t = map (\<lambda>c. if c = a then b else c) t"

text \<open>The dictionary \<open>arabic_chars\<close>, in its insertion order.\<close>

definition arabic_chars :: "(nat \<times> nat) list" where
  "arabic_chars =
     [(0x623, 0x627), (0x625, 0x627), (0x622, 0x627),
      (0x629, 0x647),
      (0x649, 0x64A),
      (0x660, 0x30), (0x661, 0x31), (0x662, 0x32), (0x663, 0x33), (0x664, 0x34),
      (0x665, 0x35), (0x666, 0x36), (0x667, 0x37), (0x668, 0x38), (0x669, 0x39)]"

definition normalize_text :: "ucd \<Rightarrow> ustr \<Rightarrow> ustr" where
  "normalize_text U text =
     (let t1 = nfkd U text;
          t2 = filter (\<lambda>c. \<not> (combining U c \<noteq> 0)) t1;
          t3 = strip (collapse_spaces t2)
      in fold (\<lambda>(ar_char, replacement) t. replace_char ar_char replacement t) arabic_chars t3)"

section \<open>The regular expressions of \<open>re\<close>\<close>

text \<open>
  The patterns of the program use literals, character sets, the categories \<open>\s\<close> and
  \<open>\d\<close>, greedy repetition of a single-character item, \<open>\b\<close>, alternation and
  groups. \<open>rx\<close> is their abstract syntax.
\<close>

datatype citem = CLit nat | CRange nat nat | CSpace | CDigit

datatype atom = Lit nat | In "citem list"

datatype rx =
    Eps
  | One atom
  | Rep atom nat "nat option"
  | WordB
  | Cat rx rx
  | Alt rx rx
  | Group nat rx

text \<open>
  IGNORECASE on a \<open>str\<close> pattern, as \<open>sre_compile\<close> does it. A pattern character is
  cased when a simple case mapping moves it. The compiler lower-cases a cased literal and
  the members of a set, adds the characters its table \<open>_ignorecase_fixes\<close> equates with
  them, and the matcher compares the lower-cased text character. An uncased literal, and
  a set with no cased member, is compared as it is.

  \<open>ignorecase_fixes\<close> holds the rows of that table for the Latin letters: \<open>i\<close> with
  dotless \<open>i\<close> (U+0131) and \<open>s\<close> with long \<open>s\<close> (U+017F). The other rows (Greek, Cyrillic,
  ligatures) hold no lower-case form of a character that a pattern of this program names.
\<close>

definition iscased :: "ucd \<Rightarrow> nat \<Rightarrow> bool" where
  "iscased U c \<longleftrightarrow> c \<noteq> tolower U c \<or> c \<noteq> toupper U c"

definition ignorecase_fixes :: "nat \<Rightarrow> nat list" where
  "ignorecase_fixes lo =
     (if lo = 0x69 then [0x131] else if lo = 0x131 then [0x69]
      else if lo = 0x73 then [0x17F] else if lo = 0x17F then [0x73] else [])"

definition folded :: "ucd \<Rightarrow> nat \<Rightarrow> nat \<Rightarrow> bool" where
  "folded U c x \<longleftrightarrow> (let lo = tolower U c in x = lo \<or> x \<in> set (ignorecase_fixes lo))"

definition lit_match :: "ucd \<Rightarrow> bool \<Rightarrow> nat \<Rightarrow> nat \<Rightarrow> bool" where
  "lit_match U ic c ch \<longleftrightarrow> (if ic \<and> iscased U c then folded U c (tolower U ch) else ch = c)"

fun item_cased :: "ucd \<Rightarrow> citem \<Rightarrow> bool" where
  "item_cased U (CLit c) = iscased U c"
| "item_cased U (CRange a b) = (\<exists>i \<in> set [a..<Suc b]. iscased U i)"
| "item_cased U CSpace = False"
| "item_cased U CDigit = False"

fun item_member :: "ucd \<Rightarrow> bool \<Rightarrow> citem \<Rightarrow> nat \<Rightarrow> bool" where
  "item_member U ic (CLit c) x = (if ic then folded U c x else x = c)"
| "item_member U ic (CRange a b) x =
     (if ic then (\<exists>i \<in> set [a..<Suc b]. folded U i x) else a \<le> x \<and> x \<le> b)"
| "item_member U ic CSpace x = isspace x"
| "item_member U ic CDigit x = (decimal U x \<noteq> None)"

definition set_match :: "ucd \<Rightarrow> bool \<Rightarrow> citem list \<Rightarrow> nat \<Rightarrow> bool" where
  "set_match U ic items ch \<longleftrightarrow>
     (let x = (if ic \<and> (\<exists>it \<in> set items. item_cased U it) then tolower U ch else ch)
      in \<exists>it \<in> set items. item_member U ic it x)"

fun atom_match :: "ucd \<Rightarrow> bool \<Rightarrow> atom \<Rightarrow> nat \<Rightarrow> bool" where
  "atom_match U ic (Lit c) ch = lit_match U ic c ch"
| "atom_match U ic (In items) ch = set_match U ic items ch"

text \<open>
  \<open>\b\<close>: a word character is an alphanumeric one or \<open>_\<close>; a boundary is a position with
  a word character on exactly one side. An empty text has no boundary.
\<close>

definition isword :: "ucd \<Rightarrow> nat \<Rightarrow> bool" where
  "isword U c \<longleftrightarrow> isalnum U c \<or> c = 0x5F"

definition at_boundary :: "ucd \<Rightarrow> ustr \<Rightarrow> nat \<Rightarrow> bool" where
  "at_boundary U s p \<longleftrightarrow>
     s \<noteq> [] \<and> ((0 < p \<and> isword U (s ! (p - 1))) \<noteq> (p < length s \<and> isword U (s ! p)))"

text \<open>
  The backtracking matcher. A state is the position in the text and the spans of the
  groups closed so far. \<open>ms r st\<close> lists the states in which a match of \<open>r\<close> begun in
  \<open>st\<close> can end, in the order the engine tries them: a greedy repetition offers its
  longest run first, an alternation its left branch first. The head of the list is the
  match the engine reports.
\<close>

type_synonym caps = "(nat \<times> nat \<times> nat) list"

definition run_length :: "ucd \<Rightarrow> bool \<Rightarrow> atom \<Rightarrow> nat option \<Rightarrow> ustr \<Rightarrow> nat \<Rightarrow> nat" where
  "run_length U ic a hi s p =
     (let n = length (takeWhile (atom_match U ic a) (drop p s))
      in case hi of None \<Rightarrow> n | Some h \<Rightarrow> min h n)"

fun ms :: "ucd \<Rightarrow> bool \<Rightarrow> ustr \<Rightarrow> rx \<Rightarrow> nat \<times> caps \<Rightarrow> (nat \<times> caps) list" where
  "ms U ic s Eps st = [st]"
| "ms U ic s (One a) st =
     (if fst st < length s \<and> atom_match U ic a (s ! fst st) then [(Suc (fst st), snd st)] else [])"
| "ms U ic s (Rep a lo hi) st =
     map (\<lambda>k. (fst st + k, snd st)) (rev [lo..<Suc (run_length U ic a hi s (fst st))])"
| "ms U ic s WordB st = (if at_boundary U s (fst st) then [st] else [])"
| "ms U ic s (Cat r1 r2) st = concat (map (ms U ic s r2) (ms U ic s r1 st))"
| "ms U ic s (Alt r1 r2) st = ms U ic s r1 st @ ms U ic s r2 st"
| "ms U ic s (Group i r) st =
     map (\<lambda>e. (fst e, AList.update i (fst st, fst e) (snd e))) (ms U ic s r st)"

text \<open>A match object: where the match starts, where it ends, and the group spans.\<close>

record match =
  m_start :: nat
  m_end :: nat
  m_groups :: caps

definition match_at :: "ucd \<Rightarrow> bool \<Rightarrow> rx \<Rightarrow> ustr \<Rightarrow> nat \<Rightarrow> match option" where
  "match_at U ic r s i =
     (case ms U ic s r (i, []) of
        [] \<Rightarrow> None
      | e # _ \<Rightarrow> Some \<lparr>m_start = i, m_end = fst e, m_groups = snd e\<rparr>)"

fun first_match :: "ucd \<Rightarrow> bool \<Rightarrow> rx \<Rightarrow> ustr \<Rightarrow> nat list \<Rightarrow> match option" where
  "first_match U ic r s [] = None"
| "first_match U ic r s (i # is) =
     (case match_at U ic r s i of Some m \<Rightarrow> Some m | None \<Rightarrow> first_match U ic r s is)"

text \<open>\<open>re.search\<close>: the match at the leftmost position that has one.\<close>

definition search :: "ucd \<Rightarrow> bool \<Rightarrow> rx \<Rightarrow> ustr \<Rightarrow> match option" where
  "search U ic r s = first_match U ic r s [0..<Suc (length s)]"

definition slice :: "ustr \<Rightarrow> nat \<Rightarrow> nat \<Rightarrow> ustr" where
  "slice s a b = take (b - a) (drop a s)"

text \<open>
  \<open>match.group(0)\<close> is the matched text; \<open>match.group(i)\<close> is the text of group \<open>i\<close>,
  or \<open>None\<close> when the group took no part in the match.
\<close>

definition group0 :: "ustr \<Rightarrow> match \<Rightarrow> ustr" where
  "group0 s m = slice s (m_start m) (m_end m)"

definition group :: "ustr \<Rightarrow> match \<Rightarrow> nat \<Rightarrow> ustr option" where
  "group s m i = map_option (\<lambda>(a, b). slice s a b) (map_of (m_groups m) i)"

text \<open>
  \<open>re.sub(pattern, repl, text)\<close>: the matches are found from left to right, each search
  starting where the previous match ended; an empty match is followed by one copied
  character.
\<close>

function sub_from :: "ucd \<Rightarrow> bool \<Rightarrow> rx \<Rightarrow> ustr \<Rightarrow> ustr \<Rightarrow> nat \<Rightarrow> ustr" where
  "sub_from U ic r repl s i =
     (case first_match U ic r s [i..<Suc (length s)] of
        None \<Rightarrow> drop i s
      | Some m \<Rightarrow>
          slice s i (m_start m) @ repl @
          (if m_start m < m_end m then sub_from U ic r repl s (m_end m)
           else if m_start m < length s
                then s ! m_start m # sub_from U ic r repl s (Suc (m_start m))
                else []))"
  by pat_completeness auto
termination
proof -
  have start: "m_start m \<in> set js" if "first_match U ic r s js = Some m"
    for U ic r s js m
    using that
    by (induction js) (auto simp: match_at_def split: option.splits list.splits)
  show ?thesis
  proof (relation "measure (\<lambda>(U, ic, r, repl, s, i). Suc (length s) - i)", goal_cases)
    case 1
    show ?case by simp
  next
    case (2 U ic r repl s i m)
    from start [OF 2(1)] 2(2) show ?case by auto
  next
    case (3 U ic r repl s i m)
    from start [OF 3(1)] 3(3) show ?case by auto
  qed
qed

definition re_sub :: "ucd \<Rightarrow> bool \<Rightarrow> rx \<Rightarrow> ustr \<Rightarrow> ustr \<Rightarrow> ustr" where
  "re_sub U ic r repl s = sub_from U ic r repl s 0"

text \<open>Building blocks of the patterns.\<close>

definition seq :: "rx list \<Rightarrow> rx" where
  "seq rs = foldr Cat rs Eps"

definition lits :: "ustr \<Rightarrow> rx" where
  "lits cs = seq (map (\<lambda>c. One (Lit c)) cs)"

text \<open>\<open>spaces0\<close> is \<open>\s*\<close> and \<open>digits n\<close> is \<open>\d{n}\<close>.\<close>

definition spaces0 :: rx where
  "spaces0 = Rep (In [CSpace]) 0 None"

definition digits :: "nat \<Rightarrow> rx" where
  "digits n = Rep (In [CDigit]) n (Some n)"

section \<open>parse_date\<close>

text \<open>
  \<open>datetime.strptime(date_str, fmt)\<close> for a format made of \<open>%d\<close>, \<open>%m\<close>, \<open>%Y\<close> and
  literal characters. \<open>_strptime\<close> turns the format into a regular expression, one named
  group for each directive (here group 1 is the day, 2 the month, 3 the year), matches it
  at the start of the text ignoring case, refuses text left over, reads the groups with
  \<open>int\<close> and builds the date, which checks the calendar. The expressions of the
  directives are
  \<^item> \<open>%d\<close>: \<^verbatim>\<open>(?P<d>3[0-1]|[1-2]\d|0[1-9]|[1-9]| [1-9])\<close>
  \<^item> \<open>%m\<close>: \<^verbatim>\<open>(?P<m>1[0-2]|0[1-9]|[1-9])\<close>
  \<^item> \<open>%Y\<close>: \<^verbatim>\<open>(?P<Y>\d\d\d\d)\<close>
\<close>

definition directive_rx :: "char \<Rightarrow> rx" where
  "directive_rx d =
     (if d = CHR ''d'' then
        Group 1
          (Alt (Cat (One (Lit 0x33)) (One (In [CRange 0x30 0x31])))
          (Alt (Cat (One (In [CRange 0x31 0x32])) (One (In [CDigit])))
          (Alt (Cat (One (Lit 0x30)) (One (In [CRange 0x31 0x39])))
          (Alt (One (In [CRange 0x31 0x39]))
               (Cat (One (Lit 0x20)) (One (In [CRange 0x31 0x39])))))))
      else if d = CHR ''m'' then
        Group 2
          (Alt (Cat (One (Lit 0x31)) (One (In [CRange 0x30 0x32])))
          (Alt (Cat (One (Lit 0x30)) (One (In [CRange 0x31 0x39])))
               (One (In [CRange 0x31 0x39]))))
      else
        Group 3 (seq [One (In [CDigit]), One (In [CDigit]), One (In [CDigit]), One (In [CDigit])]))"

fun format_rx :: "string \<Rightarrow> rx" where
  "format_rx [] = Eps"
| "format_rx [c] = One (Lit (of_char c))"
| "format_rx (c # d # cs) =
     (if c = CHR ''%'' then Cat (directive_rx d) (format_rx cs)
      else Cat (One (Lit (of_char c))) (format_rx (d # cs)))"

text \<open>
  \<open>int(text)\<close> on the text of a group: surrounding whitespace is dropped and every
  remaining character must be a decimal digit (a group of the expressions above holds
  nothing else), otherwise ValueError, here \<open>None\<close>.
\<close>

definition py_int :: "ucd \<Rightarrow> ustr \<Rightarrow> nat option" where
  "py_int U t =
     (let t' = strip t
      in if t' = [] then None
         else fold (\<lambda>c acc. case (acc, decimal U c) of
                               (Some a, Some v) \<Rightarrow> Some (10 * a + v)
                             | _ \<Rightarrow> None) t' (Some 0))"

definition is_leap :: "nat \<Rightarrow> bool" where
  "is_leap y \<longleftrightarrow> y mod 4 = 0 \<and> (y mod 100 \<noteq> 0 \<or> y mod 400 = 0)"

definition days_in_month :: "nat \<Rightarrow> nat \<Rightarrow> nat" where
  "days_in_month y m =
     (if m = 2 \<and> is_leap y then 29
      else [31, 28, 31, 30, 31, 30, 31, 31, 30, 31, 30, 31] ! (m - 1))"

text \<open>The check of \<open>datetime.date(year, month, day)\<close>; the years run from 1 to 9999.\<close>

definition valid_date :: "nat \<Rightarrow> nat \<Rightarrow> nat \<Rightarrow> bool" where
  "valid_date y m d \<longleftrightarrow>
     1 \<le> y \<and> y \<le> 9999 \<and> 1 \<le> m \<and> m \<le> 12 \<and> 1 \<le> d \<and> d \<le> days_in_month y m"

datatype exn = ValueError | TypeError

definition strptime :: "ucd \<Rightarrow> ustr \<Rightarrow> string \<Rightarrow> exn + (nat \<times> nat \<times> nat)" where
  "strptime U data_string fmt =
     (case match_at U True (format_rx fmt) data_string 0 of
        None \<Rightarrow> Inl ValueError
      | Some found \<Rightarrow>
          if length data_string \<noteq> m_end found then Inl ValueError
          else (case (group data_string found 3, group data_string found 2,
                      group data_string found 1) of
                  (Some gY, Some gm, Some gd) \<Rightarrow>
                    (case (py_int U gY, py_int U gm, py_int U gd) of
                       (Some year, Some month, Some day) \<Rightarrow>
                         if valid_date year month day then Inr (year, month, day)
                         else Inl ValueError
                     | _ \<Rightarrow> Inl ValueError)
                | _ \<Rightarrow> Inl TypeError))"

text \<open>
  \<open>strftime('%Y-%m-%d')\<close>: \<open>%m\<close> and \<open>%d\<close> write the month and the day on two digits,
  padded with a zero. \<open>%Y\<close> is left to the C library, which writes the year in decimal
  without padding: four digits from the year 1000 on, fewer below (\<open>999-01-01\<close>).
\<close>

fun zpad :: "nat \<Rightarrow> nat \<Rightarrow> ustr" where
  "zpad 0 n = []"
| "zpad (Suc w) n = zpad w (n div 10) @ [0x30 + n mod 10]"

function str_nat :: "nat \<Rightarrow> ustr" where
  "str_nat n = (if n < 10 then [0x30 + n] else str_nat (n div 10) @ [0x30 + n mod 10])"
  by pat_completeness auto
termination
  by (relation "measure (\<lambda>n. n)") auto

declare str_nat.simps [simp del]

definition strftime :: "nat \<times> nat \<times> nat \<Rightarrow> ustr" where
  "strftime dt = (case dt of (y, m, d) \<Rightarrow> str_nat y @ [0x2D] @ zpad 2 m @ [0x2D] @ zpad 2 d)"

text \<open>
  The loop over the formats: ValueError moves on to the next format, any other exception
  reaches the outer handler, which returns \<open>None\<close>.
\<close>

fun try_formats :: "ucd \<Rightarrow> ustr \<Rightarrow> string list \<Rightarrow> ustr option" where
  "try_formats U date_str [] = None"
| "try_formats U date_str (fmt # fmts) =
     (case strptime U date_str fmt of
        Inr dt \<Rightarrow> Some (strftime dt)
      | Inl ValueError \<Rightarrow> try_formats U date_str fmts
      | Inl TypeError \<Rightarrow> None)"

definition date_formats :: "string list" where
  "date_formats = [''%d/%m/%Y'', ''%Y/%m/%d'', ''%m/%d/%Y'']"

definition parse_date :: "ucd \<Rightarrow> ustr \<Rightarrow> ustr option" where
  "parse_date U date_str =
     (if date_str = [] then None
      else try_formats U (replace_char 0x2D 0x2F (replace_char 0x2E 0x2F date_str)) date_formats)"

section \<open>The extractor\<close>

text \<open>
  The patterns of \<open>__init__\<close>. An entry of \<open>self.patterns\<close> is one pattern or a dictionary
  from a language to a pattern; the entries and the languages keep their insertion order.
\<close>

definition date_token :: rx where
  \<comment> \<open>\<^verbatim>\<open>(\d{2}[./-]\d{2}[./-]\d{4})\<close>\<close>
  "date_token =
     Group 1 (seq [digits 2, One (In [CLit 0x2E, CLit 0x2F, CLit 0x2D]),
                   digits 2, One (In [CLit 0x2E, CLit 0x2F, CLit 0x2D]), digits 4])"

definition cin_number_rx :: rx where
  \<comment> \<open>\<^verbatim>\<open>\b[A-Z]{1,2}\d{6}\b\<close>\<close>
  "cin_number_rx = seq [WordB, Rep (In [CRange 0x41 0x5A]) 1 (Some 2), digits 6, WordB]"

definition name_fr :: rx where
  \<comment> \<open>\<^verbatim>\<open>NOM\s*ET\s*PRENOM\s*[:]*\s*([A-Z\s\-]+)\<close>\<close>
  "name_fr =
     seq [lits (asc ''NOM''), spaces0, lits (asc ''ET''), spaces0, lits (asc ''PRENOM''),
          spaces0, Rep (Lit 0x3A) 0 None, spaces0,
          Group 1 (Rep (In [CRange 0x41 0x5A, CSpace, CLit 0x2D]) 1 None)]"

definition name_ar :: rx where
  \<comment> \<open>al-ism al-kamil, then \<^verbatim>\<open>\s*[:]*\s*([\u0600-\u06FF\s]+)\<close>\<close>
  "name_ar =
     seq [lits [0x627, 0x644, 0x627, 0x633, 0x645], spaces0,
          lits [0x627, 0x644, 0x643, 0x627, 0x645, 0x644], spaces0,
          Rep (Lit 0x3A) 0 None, spaces0,
          Group 1 (Rep (In [CRange 0x600 0x6FF, CSpace]) 1 None)]"

definition birth_date_fr :: rx where
  \<comment> \<open>\<^verbatim>\<open>N[e\<close>U+00E9\<^verbatim>\<open>]\s*le\s*(\d{2}[./-]\d{2}[./-]\d{4})\<close>\<close>
  "birth_date_fr =
     seq [lits (asc ''N''), One (In [CLit 0x65, CLit 0xE9]), spaces0, lits (asc ''le''),
          spaces0, date_token]"

definition birth_date_ar :: rx where
  \<comment> \<open>tarikh al-izdiyad, then \<^verbatim>\<open>\s*[:]*\s*(\d{2}[./-]\d{2}[./-]\d{4})\<close>\<close>
  "birth_date_ar =
     seq [lits [0x62A, 0x627, 0x631, 0x64A, 0x62E], spaces0,
          lits [0x627, 0x644, 0x627, 0x632, 0x62F, 0x64A, 0x627, 0x62F], spaces0,
          Rep (Lit 0x3A) 0 None, spaces0, date_token]"

definition birth_place_fr :: rx where
  \<comment> \<open>\<^verbatim>\<open>\b(?:\u00e0|a)\s*([A-Z\s\-]+)\<close>\<close>
  "birth_place_fr =
     seq [WordB, Alt (One (Lit 0xE0)) (One (Lit 0x61)), spaces0,
          Group 1 (Rep (In [CRange 0x41 0x5A, CSpace, CLit 0x2D]) 1 None)]"

definition birth_place_ar :: rx where
  \<comment> \<open>makan al-izdiyad, then \<^verbatim>\<open>\s*[:]*\s*([\u0600-\u06FF\s]+)\<close>\<close>
  "birth_place_ar =
     seq [lits [0x645, 0x643, 0x627, 0x646], spaces0,
          lits [0x627, 0x644, 0x627, 0x632, 0x62F, 0x64A, 0x627, 0x62F], spaces0,
          Rep (Lit 0x3A) 0 None, spaces0,
          Group 1 (Rep (In [CRange 0x600 0x6FF, CSpace]) 1 None)]"

definition expiry_date_fr :: rx where
  \<comment> \<open>\<^verbatim>\<open>Valable\s*jusqu\'au\s*(\d{2}[./-]\d{2}[./-]\d{4})\<close>\<close>
  "expiry_date_fr =
     seq [lits (asc ''Valable''), spaces0, lits (asc ''jusqu''), One (Lit 0x27),
          lits (asc ''au''), spaces0, date_token]"

definition expiry_date_ar :: rx where
  \<comment> \<open>saliha ila ghaya, written with teh marbuta, alef with hamza below and alef maksura\<close>
  "expiry_date_ar =
     seq [lits [0x635, 0x627, 0x644, 0x62D, 0x629], spaces0,
          lits [0x625, 0x644, 0x649], spaces0,
          lits [0x63A, 0x627, 0x64A, 0x629], spaces0, date_token]"

datatype entry = Plain rx | Langs "(string \<times> rx) list"

definition patterns :: "(ustr \<times> entry) list" where
  "patterns =
     [(asc ''cin_number'', Plain cin_number_rx),
      (asc ''name'', Langs [(''fr'', name_fr), (''ar'', name_ar)]),
      (asc ''birth_date'', Langs [(''fr'', birth_date_fr), (''ar'', birth_date_ar)]),
      (asc ''birth_place'', Langs [(''fr'', birth_place_fr), (''ar'', birth_place_ar)]),
      (asc ''expiry_date'', Langs [(''fr'', expiry_date_fr), (''ar'', expiry_date_ar)])]"

subsection \<open>clean_irrelevant_lines\<close>

definition remove_fr :: rx where
  \<comment> \<open>\<^verbatim>\<open>(ROYAUME DU MAROC|CARTE NATIONALE D\'IDENTITE)\<close>\<close>
  "remove_fr =
     Group 1 (Alt (lits (asc ''ROYAUME DU MAROC''))
                  (seq [lits (asc ''CARTE NATIONALE D''), One (Lit 0x27),
                        lits (asc ''IDENTITE'')]))"

definition remove_ar :: rx where
  \<comment> \<open>the two Arabic titles: al-mamlaka al-maghribiya, al-bitaqa al-wataniya lil-ta'rif\<close>
  "remove_ar =
     Group 1 (Alt (lits [0x627, 0x644, 0x645, 0x645, 0x644, 0x643, 0x629, 0x20,
                         0x627, 0x644, 0x645, 0x63A, 0x631, 0x628, 0x64A, 0x629])
                  (lits [0x627, 0x644, 0x628, 0x637, 0x627, 0x642, 0x629, 0x20,
                         0x627, 0x644, 0x648, 0x637, 0x646, 0x64A, 0x629, 0x20,
                         0x644, 0x644, 0x62A, 0x639, 0x631, 0x64A, 0x641]))"

definition remove_expiry :: rx where
  \<comment> \<open>the damaged "valid until" line, written with a fatha (U+064E) after the ghain,
      then \<^verbatim>\<open>\s*\d{2}\.\d{4}\<close>\<close>
  "remove_expiry =
     seq [lits [0x627, 0x644, 0x62D, 0x629], spaces0,
          lits [0x625, 0x644, 0x649], spaces0,
          lits [0x63A, 0x64E, 0x627, 0x64A, 0x629], spaces0,
          digits 2, One (Lit 0x2E), digits 4]"

definition patterns_to_remove :: "rx list" where
  "patterns_to_remove = [remove_fr, remove_ar, remove_expiry]"

definition clean_irrelevant_lines :: "ucd \<Rightarrow> ustr \<Rightarrow> ustr" where
  "clean_irrelevant_lines U text =
     strip (fold (\<lambda>pattern t. re_sub U True pattern [] t) patterns_to_remove text)"

subsection \<open>extract\<close>

text \<open>
  \<open>str.title()\<close> on ASCII text, which the keys are: a letter that follows a letter is
  lower-cased, any other letter is upper-cased.
\<close>

fun title_from :: "bool \<Rightarrow> ustr \<Rightarrow> ustr" where
  "title_from previous_is_cased [] = []"
| "title_from previous_is_cased (c # cs) =
     (if 0x61 \<le> c \<and> c \<le> 0x7A
      then (if previous_is_cased then c else c - 32) # title_from True cs
      else if 0x41 \<le> c \<and> c \<le> 0x5A
      then (if previous_is_cased then c + 32 else c) # title_from True cs
      else c # title_from False cs)"

definition title :: "ustr \<Rightarrow> ustr" where
  "title t = title_from False t"

definition result_key :: "ustr \<Rightarrow> ustr" where
  \<comment> \<open>\<^verbatim>\<open>key.replace('_', ' ').title()\<close>\<close>
  "result_key key = title (replace_char 0x5F 0x20 key)"

text \<open>
  The result is a dictionary from a key to a text or \<open>None\<close>, kept as an association
  list in insertion order; \<open>AList.update\<close> overwrites a key that is there and appends one
  that is not, as the assignment \<open>extracted[k] = v\<close> does.
\<close>

type_synonym result = "(ustr \<times> ustr option) list"

definition initial_result :: result where
  "initial_result =
     [(asc ''CIN Number'', None), (asc ''Full Name'', None), (asc ''Date of Birth'', None),
      (asc ''Place of Birth'', None), (asc ''Expiry Date'', None)]"

text \<open>
  The only operation of \<open>extract\<close> that can raise is \<open>.strip()\<close> on \<open>match.group(1)\<close> when
  the group took no part in the match (AttributeError on \<open>None\<close>); \<open>parse_date\<close> given
  \<open>None\<close> returns \<open>None\<close> at its first test.
\<close>

datatype error = AttributeError

fun for_langs :: "ucd \<Rightarrow> ustr \<Rightarrow> ustr \<Rightarrow> (string \<times> rx) list \<Rightarrow> result \<Rightarrow> error + result" where
  "for_langs U text key [] extracted = Inr extracted"
| "for_langs U text key (lp # rest) extracted =
     (case search U True (snd lp) text of
        Some m \<Rightarrow>
          if key = asc ''birth_date'' \<or> key = asc ''expiry_date''
          then Inr (AList.update (result_key key)
                      (case group text m 1 of None \<Rightarrow> None | Some t \<Rightarrow> parse_date U t)
                      extracted)
          else (case group text m 1 of
                  None \<Rightarrow> Inl AttributeError
                | Some t \<Rightarrow> Inr (AList.update (result_key key) (Some (strip t)) extracted))
      | None \<Rightarrow> for_langs U text key rest extracted)"

fun for_patterns :: "ucd \<Rightarrow> ustr \<Rightarrow> (ustr \<times> entry) list \<Rightarrow> result \<Rightarrow> error + result" where
  "for_patterns U text [] extracted = Inr extracted"
| "for_patterns U text ((key, Langs lps) # rest) extracted =
     (case for_langs U text key lps extracted of
        Inl e \<Rightarrow> Inl e
      | Inr extracted' \<Rightarrow> for_patterns U text rest extracted')"
| "for_patterns U text ((key, Plain pattern) # rest) extracted =
     (case search U True pattern text of
        Some m \<Rightarrow>
          for_patterns U text rest
            (AList.update (result_key key) (Some (strip (group0 text m))) extracted)
      | None \<Rightarrow> for_patterns U text rest extracted)"

text \<open>\<open>extract_fields\<close> is the method \<open>extract\<close> (the name is a keyword of Isabelle).\<close>

definition extract_fields :: "ucd \<Rightarrow> ustr \<Rightarrow> error + result" where
  "extract_fields U text =
     for_patterns U (clean_irrelevant_lines U (normalize_text U text)) patterns initial_result"

section \<open>Rows of the Unicode tables\<close>

text \<open>
  \<open>ucd0\<close> holds the rows of the Unicode Character Database for the code points of the
  texts evaluated below, and for every code point that the case-insensitive class
  \<open>[A-Z]\<close> accepts: Basic Latin, the no-break space, the Latin-1 letters, the letters
  U+0130 (capital I with dot), U+0131 (dotless i) and U+017F (long s), the Kelvin sign
  U+212A, the combining accents U+0300 to U+0314, the combining grapheme joiner U+034F
  (a mark of combining class 0), the Arabic letters U+0620 to U+064A, the marks U+064B
  to U+0655 and the digits U+0660 to U+0669. Of the decompositions it has those of the
  no-break space, of \<open>A\<close>, \<open>E\<close>, \<open>a\<close> and \<open>e\<close> with grave and acute accent, of U+0130,
  U+017F and U+212A, and of the three alefs that carry a madda or a hamza. Any other code
  point has the row of an unassigned one; no text evaluated below holds one.
\<close>

definition decomposition0 :: "nat \<Rightarrow> nat list" where
  "decomposition0 c =
     (if c = 0xA0 then [0x20]
      else if c = 0xC0 then [0x41, 0x300] else if c = 0xC1 then [0x41, 0x301]
      else if c = 0xC8 then [0x45, 0x300] else if c = 0xC9 then [0x45, 0x301]
      else if c = 0xE0 then [0x61, 0x300] else if c = 0xE1 then [0x61, 0x301]
      else if c = 0xE8 then [0x65, 0x300] else if c = 0xE9 then [0x65, 0x301]
      else if c = 0x130 then [0x49, 0x307]
      else if c = 0x17F then [0x73]
      else if c = 0x212A then [0x4B]
      else if c = 0x622 then [0x627, 0x653]
      else if c = 0x623 then [0x627, 0x654]
      else if c = 0x625 then [0x627, 0x655]
      else [c])"

definition combining0 :: "nat \<Rightarrow> nat" where
  "combining0 c =
     (if 0x300 \<le> c \<and> c \<le> 0x314 then 230
      else if 0x64B \<le> c \<and> c \<le> 0x652 then c - 0x64B + 27
      else if c = 0x653 \<or> c = 0x654 then 230
      else if c = 0x655 then 220
      else 0)"

definition tolower0 :: "nat \<Rightarrow> nat" where
  "tolower0 c =
     (if 0x41 \<le> c \<and> c \<le> 0x5A then c + 32
      else if 0xC0 \<le> c \<and> c \<le> 0xDE \<and> c \<noteq> 0xD7 then c + 32
      else if c = 0x130 then 0x69
      else if c = 0x212A then 0x6B
      else c)"

definition toupper0 :: "nat \<Rightarrow> nat" where
  "toupper0 c =
     (if 0x61 \<le> c \<and> c \<le> 0x7A then c - 32
      else if 0xE0 \<le> c \<and> c \<le> 0xFE \<and> c \<noteq> 0xF7 then c - 32
      else if c = 0xB5 then 0x39C
      else if c = 0xFF then 0x178
      else if c = 0x131 then 0x49
      else if c = 0x17F then 0x53
      else c)"

definition decimal0 :: "nat \<Rightarrow> nat option" where
  "decimal0 c =
     (if 0x30 \<le> c \<and> c \<le> 0x39 then Some (c - 0x30)
      else if 0x660 \<le> c \<and> c \<le> 0x669 then Some (c - 0x660)
      else None)"

definition isalnum0 :: "nat \<Rightarrow> bool" where
  "isalnum0 c \<longleftrightarrow>
     (0x30 \<le> c \<and> c \<le> 0x39) \<or> (0x41 \<le> c \<and> c \<le> 0x5A) \<or> (0x61 \<le> c \<and> c \<le> 0x7A) \<or>
     c = 0xAA \<or> c = 0xB5 \<or> c = 0xBA \<or>
     (0xC0 \<le> c \<and> c \<le> 0xFF \<and> c \<noteq> 0xD7 \<and> c \<noteq> 0xF7) \<or>
     c = 0x130 \<or> c = 0x131 \<or> c = 0x17F \<or> c = 0x212A \<or>
     (0x620 \<le> c \<and> c \<le> 0x64A) \<or> (0x660 \<le> c \<and> c \<le> 0x669)"

definition ucd0 :: ucd where
  "ucd0 = \<lparr>decomposition = decomposition0, combining = combining0, tolower = tolower0,
           toupper = toupper0, decimal = decimal0, isalnum = isalnum0\<rparr>"


section \<open>Notions used by the properties\<close>

text \<open>\<open>cleaned_text\<close> is the text on which \<open>extract\<close> runs its patterns.\<close>

definition cleaned_text :: "ucd \<Rightarrow> ustr \<Rightarrow> ustr" where
  "cleaned_text U text = clean_irrelevant_lines U (normalize_text U text)"

text \<open>
  \<open>sets_group i r\<close>: every match of \<open>r\<close> closes group \<open>i\<close>, whatever the text. It is a
  syntactic check, sufficient for the patterns of the program.
\<close>

fun sets_group :: "nat \<Rightarrow> rx \<Rightarrow> bool" where
  "sets_group i (Group j r) = (i = j \<or> sets_group i r)"
| "sets_group i (Cat r1 r2) = (sets_group i r1 \<or> sets_group i r2)"
| "sets_group i (Alt r1 r2) = (sets_group i r1 \<and> sets_group i r2)"
| "sets_group i _ = False"

fun groups_ok :: "entry \<Rightarrow> bool" where
  "groups_ok (Plain p) = True"
| "groups_ok (Langs lps) = (\<forall>lp \<in> set lps. sets_group 1 (snd lp))"

text \<open>\<open>no_match U t e\<close>: no pattern of the entry \<open>e\<close> matches anywhere in \<open>t\<close>.\<close>

fun no_match :: "ucd \<Rightarrow> ustr \<Rightarrow> entry \<Rightarrow> bool" where
  "no_match U t (Plain p) = (search U True p t = None)"
| "no_match U t (Langs lps) = (\<forall>lp \<in> set lps. search U True (snd lp) t = None)"

text \<open>The shape \<open>YYYY-MM-DD\<close>: ten characters, ASCII digits around two hyphens.\<close>

definition is_iso_date :: "ustr \<Rightarrow> bool" where
  "is_iso_date r \<longleftrightarrow>
     length r = 10 \<and> r ! 4 = 0x2D \<and> r ! 7 = 0x2D \<and>
     list_all (\<lambda>i. 0x30 \<le> r ! i \<and> r ! i \<le> 0x39) [0, 1, 2, 3, 5, 6, 8, 9]"

text \<open>The Unicode block Combining Diacritical Marks, U+0300 to U+036F.\<close>

definition combining_diacritical :: "nat \<Rightarrow> bool" where
  "combining_diacritical c \<longleftrightarrow> 0x300 \<le> c \<and> c \<le> 0x36F"

text \<open>
  \<open>canon\<close> is the dictionary \<open>arabic_chars\<close> read as one substitution: a key goes to its
  value, any other character stays.
\<close>

definition canon :: "nat \<Rightarrow> nat" where
  "canon c = (case map_of arabic_chars c of Some v \<Rightarrow> v | None \<Rightarrow> c)"

text \<open>
  \<open>single_spaced t\<close>: the only whitespace of \<open>t\<close> is the space U+0020 and no two spaces
  are adjacent. \<open>trimmed t\<close>: \<open>t\<close> neither begins nor ends with whitespace.
\<close>

fun single_spaced :: "ustr \<Rightarrow> bool" where
  "single_spaced [] = True"
| "single_spaced [c] = (isspace c \<longrightarrow> c = 0x20)"
| "single_spaced (c # d # cs) =
     ((isspace c \<longrightarrow> c = 0x20 \<and> \<not> isspace d) \<and> single_spaced (d # cs))"

definition trimmed :: "ustr \<Rightarrow> bool" where
  "trimmed t \<longleftrightarrow> t = [] \<or> (\<not> isspace (hd t) \<and> \<not> isspace (last t))"

text \<open>
  \<open>skeleton U text\<close> is the text before the substitution of \<open>normalize_text\<close>: decomposed,
  without combining marks, whitespace collapsed and trimmed. (The reordering of NFKD only
  moves combining marks, which are removed.)
\<close>

definition skeleton :: "ucd \<Rightarrow> ustr \<Rightarrow> ustr" where
  "skeleton U text =
     strip (collapse_spaces (filter (\<lambda>c. combining U c = 0) (concat (map (decomposition U) text))))"

text \<open>
  What idempotence needs of the tables, and the Unicode tables provide: a character of a
  full decomposition has no further decomposition, and the space and the fifteen
  replacement characters have none and are no combining marks.
\<close>

definition tables_closed :: "ucd \<Rightarrow> bool" where
  "tables_closed U \<longleftrightarrow>
     (\<forall>c. \<forall>d \<in> set (decomposition U c). decomposition U d = [d]) \<and>
     (\<forall>x \<in> set (0x20 # map snd arabic_chars). decomposition U x = [x] \<and> combining U x = 0)"


section \<open>Groups, totality and the keys of the result\<close>

lemma ms_caps:
  "e \<in> set (ms U ic s r st) \<Longrightarrow> map_of (snd st) i \<noteq> None \<or> sets_group i r \<Longrightarrow>
   map_of (snd e) i \<noteq> None"
proof (induction r arbitrary: st e)
  case (Cat r1 r2)
  from Cat.prems(1) obtain e1 where e1: "e1 \<in> set (ms U ic s r1 st)" and e: "e \<in> set (ms U ic s r2 e1)"
    by auto
  show ?case
  proof (cases "map_of (snd st) i \<noteq> None \<or> sets_group i r1")
    case True
    then have "map_of (snd e1) i \<noteq> None" using Cat.IH(1) [OF e1] by blast
    then show ?thesis using Cat.IH(2) [OF e] by blast
  next
    case False
    then have "sets_group i r2" using Cat.prems(2) by auto
    then show ?thesis using Cat.IH(2) [OF e] by blast
  qed
next
  case (Group j r)
  from Group.prems(1) obtain e1 where e1: "e1 \<in> set (ms U ic s r st)"
    and e: "e = (fst e1, AList.update j (fst st, fst e1) (snd e1))"
    by auto
  show ?case
  proof (cases "i = j")
    case True
    then show ?thesis by (simp add: e update_conv')
  next
    case False
    then have "map_of (snd e1) i \<noteq> None" using Group.IH [OF e1] Group.prems(2) by auto
    then show ?thesis using False by (simp add: e update_conv')
  qed
qed (auto split: if_splits)

lemma first_match_caps:
  "first_match U ic r s js = Some m \<Longrightarrow> sets_group i r \<Longrightarrow> map_of (m_groups m) i \<noteq> None"
proof (induction js)
  case (Cons j js)
  show ?case
  proof (cases "ms U ic s r (j, [])")
    case Nil
    then show ?thesis using Cons by (simp add: match_at_def)
  next
    case (Cons e es)
    then have "e \<in> set (ms U ic s r (j, []))" by simp
    from ms_caps [OF this] Cons.prems(2) have "map_of (snd e) i \<noteq> None" by blast
    then show ?thesis using Cons Cons.prems(1) by (auto simp: match_at_def)
  qed
qed simp

lemma search_group:
  "search U ic r s = Some m \<Longrightarrow> sets_group i r \<Longrightarrow> group s m i \<noteq> None"
  using first_match_caps [of U ic r s _ m i] by (auto simp: search_def group_def)

lemma for_langs_result:
  assumes "\<forall>lp \<in> set lps. sets_group 1 (snd lp)"
  shows "\<exists>r. for_langs U t key lps ex = Inr r \<and>
           (r = ex \<or> (\<exists>v. r = AList.update (result_key key) v ex))"
  using assms
proof (induction lps)
  case (Cons lp lps)
  show ?case
  proof (cases "search U True (snd lp) t")
    case None
    then show ?thesis using Cons by simp
  next
    case (Some m)
    have "sets_group 1 (snd lp)" using Cons.prems by simp
    from search_group [OF Some this] have "group t m 1 \<noteq> None" .
    then show ?thesis using Some by auto
  qed
qed simp

lemma for_langs_no_match:
  "\<forall>lp \<in> set lps. search U True (snd lp) t = None \<Longrightarrow> for_langs U t key lps ex = Inr ex"
  by (induction lps) auto

lemma for_patterns_total:
  "\<forall>ke \<in> set ps. groups_ok (snd ke) \<Longrightarrow> \<exists>r. for_patterns U t ps ex = Inr r"
proof (induction ps arbitrary: ex)
  case (Cons ke ps)
  obtain key e where ke: "ke = (key, e)" by (cases ke)
  show ?case
  proof (cases e)
    case (Plain p)
    then show ?thesis using Cons ke by (auto split: option.splits)
  next
    case (Langs lps)
    with Cons.prems ke have "\<forall>lp \<in> set lps. sets_group 1 (snd lp)" by auto
    from for_langs_result [OF this, of U t key ex] obtain r1
      where "for_langs U t key lps ex = Inr r1" by blast
    then show ?thesis using Cons ke Langs by auto
  qed
qed simp

lemma for_patterns_unchanged:
  "for_patterns U t ps ex = Inr r \<Longrightarrow>
   \<forall>ke \<in> set ps. result_key (fst ke) \<noteq> K \<or> no_match U t (snd ke) \<Longrightarrow>
   \<forall>ke \<in> set ps. groups_ok (snd ke) \<Longrightarrow>
   map_of r K = map_of ex K"
proof (induction ps arbitrary: ex)
  case (Cons ke ps)
  obtain key e where ke: "ke = (key, e)" by (cases ke)
  show ?case
  proof (cases e)
    case (Plain p)
    show ?thesis
    proof (cases "search U True p t")
      case None
      then show ?thesis using Cons ke Plain by auto
    next
      case (Some m)
      then have neq: "result_key key \<noteq> K" using Cons.prems(2) ke Plain by auto
      have "map_of r K = map_of (AList.update (result_key key) (Some (strip (group0 t m))) ex) K"
        using Cons.IH [of "AList.update (result_key key) (Some (strip (group0 t m))) ex"]
          Cons.prems ke Plain Some by auto
      then show ?thesis using neq by (simp add: update_conv')
    qed
  next
    case (Langs lps)
    with Cons.prems(3) ke have g: "\<forall>lp \<in> set lps. sets_group 1 (snd lp)" by auto
    from for_langs_result [OF g, of U t key ex] obtain r1
      where r1: "for_langs U t key lps ex = Inr r1"
        and upd: "r1 = ex \<or> (\<exists>v. r1 = AList.update (result_key key) v ex)" by blast
    have same: "map_of r1 K = map_of ex K"
    proof (cases "result_key key = K")
      case True
      then have "no_match U t e" using Cons.prems(2) ke by auto
      then have "for_langs U t key lps ex = Inr ex" using Langs by (auto intro: for_langs_no_match)
      then show ?thesis using r1 by simp
    next
      case False
      then show ?thesis using upd by (auto simp: update_conv')
    qed
    have "map_of r K = map_of r1 K"
      using Cons.IH [of r1] Cons.prems ke Langs r1 by auto
    then show ?thesis using same by simp
  qed
qed simp

lemma for_patterns_step:
  assumes "for_patterns U t ((key, e) # ps) ex = Inr r" and "groups_ok e"
  shows "\<exists>r1. (r1 = ex \<or> (\<exists>v. r1 = AList.update (result_key key) v ex)) \<and>
              for_patterns U t ps r1 = Inr r"
proof (cases e)
  case (Plain p)
  then show ?thesis using assms by (cases "search U True p t") auto
next
  case (Langs lps)
  with assms(2) have g: "\<forall>lp \<in> set lps. sets_group 1 (snd lp)" by simp
  from for_langs_result [OF g, of U t key ex] obtain r1
    where r1: "for_langs U t key lps ex = Inr r1"
      and upd: "r1 = ex \<or> (\<exists>v. r1 = AList.update (result_key key) v ex)" by blast
  have "for_patterns U t ps r1 = Inr r" using assms(1) Langs r1 by simp
  with upd show ?thesis by blast
qed

lemma for_patterns_present:
  "for_patterns U t ps ex = Inr r \<Longrightarrow> \<forall>ke \<in> set ps. groups_ok (snd ke) \<Longrightarrow>
   map_of ex k \<noteq> None \<Longrightarrow> map_of r k \<noteq> None"
proof (induction ps arbitrary: ex)
  case (Cons ke ps)
  obtain key e where ke: "ke = (key, e)" by (cases ke)
  from Cons.prems(2) ke have "groups_ok e" by simp
  from for_patterns_step [OF Cons.prems(1) [unfolded ke] this] obtain r1
    where upd: "r1 = ex \<or> (\<exists>v. r1 = AList.update (result_key key) v ex)"
      and r1: "for_patterns U t ps r1 = Inr r" by blast
  from upd Cons.prems(3) have "map_of r1 k \<noteq> None" by (auto simp: update_conv')
  with Cons.IH [OF r1] Cons.prems(2) show ?case by simp
qed simp

lemma for_patterns_keys:
  "for_patterns U t ps ex = Inr r \<Longrightarrow> \<forall>ke \<in> set ps. groups_ok (snd ke) \<Longrightarrow>
   k \<in> fst ` set r \<Longrightarrow> k \<in> fst ` set ex \<or> k \<in> result_key ` fst ` set ps"
proof (induction ps arbitrary: ex)
  case (Cons ke ps)
  obtain key e where ke: "ke = (key, e)" by (cases ke)
  from Cons.prems(2) ke have "groups_ok e" by simp
  from for_patterns_step [OF Cons.prems(1) [unfolded ke] this] obtain r1
    where upd: "r1 = ex \<or> (\<exists>v. r1 = AList.update (result_key key) v ex)"
      and r1: "for_patterns U t ps r1 = Inr r" by blast
  from Cons.IH [OF r1 _ Cons.prems(3)] Cons.prems(2)
  have "k \<in> fst ` set r1 \<or> k \<in> result_key ` fst ` set ps" by simp
  moreover have "k \<in> fst ` set ex \<or> k = result_key key" if "k \<in> fst ` set r1"
  proof -
    have "fst ` set (AList.update (result_key key) v ex) = {result_key key} \<union> fst ` set ex" for v
      by (rule dom_update)
    then show ?thesis using upd that by blast
  qed
  ultimately show ?case using ke by auto
qed simp

lemma patterns_groups_ok: "\<forall>ke \<in> set patterns. groups_ok (snd ke)"
  by (simp add: patterns_def name_fr_def name_ar_def birth_date_fr_def birth_date_ar_def
      birth_place_fr_def birth_place_ar_def expiry_date_fr_def expiry_date_ar_def
      date_token_def seq_def)

lemma result_keys:
  "result_key (asc ''cin_number'') = asc ''Cin Number''"
  "result_key (asc ''name'') = asc ''Name''"
  "result_key (asc ''birth_date'') = asc ''Birth Date''"
  "result_key (asc ''birth_place'') = asc ''Birth Place''"
  "result_key (asc ''expiry_date'') = asc ''Expiry Date''"
  by (simp_all add: result_key_def title_def replace_char_def asc_def)

section \<open>The rows of \<open>ucd0\<close> in closed form\<close>

lemma sel0 [simp]:
  "decomposition ucd0 = decomposition0" "combining ucd0 = combining0" "tolower ucd0 = tolower0"
  "toupper ucd0 = toupper0" "decimal ucd0 = decimal0" "isalnum ucd0 = isalnum0"
  by (simp_all add: ucd0_def)

lemma range_member:
  "item_member U True (CRange a b) x \<longleftrightarrow> (\<exists>i. a \<le> i \<and> i \<le> b \<and> folded U i x)"
  by (auto simp: less_Suc_eq_le)

lemma range_cased:
  "item_cased U (CRange a b) \<longleftrightarrow> (\<exists>i. a \<le> i \<and> i \<le> b \<and> iscased U i)"
  by (auto simp: less_Suc_eq_le)

lemma uncased_range0:
  "b < 0x41 \<or> (0x600 \<le> a \<and> b \<le> 0x6FF) \<Longrightarrow> \<not> item_cased ucd0 (CRange a b)"
  unfolding range_cased by (auto simp: iscased_def tolower0_def toupper0_def)

lemma uncased_member0:
  assumes "b < 0x41 \<or> (0x600 \<le> a \<and> b \<le> 0x6FF)"
  shows "item_member ucd0 True (CRange a b) x \<longleftrightarrow> a \<le> x \<and> x \<le> b"
proof -
  have f: "folded ucd0 i x \<longleftrightarrow> x = i" if "a \<le> i" "i \<le> b" for i
  proof -
    have "tolower0 i = i" using that assms by (simp add: tolower0_def; arith)
    moreover have "ignorecase_fixes i = []" using that assms by (simp add: ignorecase_fixes_def; arith)
    ultimately show ?thesis by (simp add: folded_def)
  qed
  show ?thesis unfolding range_member using f by blast
qed

lemma upper_member0:
  "item_member ucd0 True (CRange 0x41 0x5A) x \<longleftrightarrow>
      (0x61 \<le> x \<and> x \<le> 0x7A) \<or> x = 0x131 \<or> x = 0x17F"
proof
  assume "item_member ucd0 True (CRange 0x41 0x5A) x"
  then obtain i where "0x41 \<le> i" "i \<le> 0x5A" "folded ucd0 i x"
    unfolding range_member by blast
  then show "(0x61 \<le> x \<and> x \<le> 0x7A) \<or> x = 0x131 \<or> x = 0x17F"
    by (auto simp: folded_def tolower0_def ignorecase_fixes_def split: if_splits)
next
  assume a: "(0x61 \<le> x \<and> x \<le> 0x7A) \<or> x = 0x131 \<or> x = 0x17F"
  define i where "i = (if x = 0x131 then 0x49 else if x = 0x17F then 0x53 else x - 32)"
  have "0x41 \<le> i \<and> i \<le> 0x5A \<and> folded ucd0 i x"
    using a by (auto simp: i_def folded_def tolower0_def ignorecase_fixes_def)
  then show "item_member ucd0 True (CRange 0x41 0x5A) x"
    unfolding range_member by blast
qed

lemma upper_cased0: "item_cased ucd0 (CRange 0x41 0x5A)"
  unfolding range_cased by (rule exI [of _ 65]) (simp add: iscased_def tolower0_def)

lemma upper_fold0:
  "set_match ucd0 True [CRange 0x41 0x5A] ch \<longleftrightarrow>
     (0x41 \<le> ch \<and> ch \<le> 0x5A) \<or> (0x61 \<le> ch \<and> ch \<le> 0x7A) \<or>
     ch = 0x130 \<or> ch = 0x131 \<or> ch = 0x17F \<or> ch = 0x212A"
proof -
  have cased: "item_cased ucd0 (CRange 0x41 0x5A)"
    unfolding range_cased by (rule exI [of _ 65]) (simp add: iscased_def tolower0_def)
  have mem: "item_member ucd0 True (CRange 0x41 0x5A) x \<longleftrightarrow>
      (0x61 \<le> x \<and> x \<le> 0x7A) \<or> x = 0x131 \<or> x = 0x17F" for x
  proof
    assume "item_member ucd0 True (CRange 0x41 0x5A) x"
    then obtain i where "0x41 \<le> i" "i \<le> 0x5A" "folded ucd0 i x"
      unfolding range_member by blast
    then show "(0x61 \<le> x \<and> x \<le> 0x7A) \<or> x = 0x131 \<or> x = 0x17F"
      by (auto simp: folded_def tolower0_def ignorecase_fixes_def split: if_splits)
  next
    assume a: "(0x61 \<le> x \<and> x \<le> 0x7A) \<or> x = 0x131 \<or> x = 0x17F"
    define i where "i = (if x = 0x131 then 0x49 else if x = 0x17F then 0x53 else x - 32)"
    have "0x41 \<le> i \<and> i \<le> 0x5A \<and> folded ucd0 i x"
      using a by (auto simp: i_def folded_def tolower0_def ignorecase_fixes_def)
    then show "item_member ucd0 True (CRange 0x41 0x5A) x"
      unfolding range_member by blast
  qed
  show ?thesis
  proof -
    have "set_match ucd0 True [CRange 0x41 0x5A] ch =
        item_member ucd0 True (CRange 0x41 0x5A) (tolower0 ch)"
      using cased by (simp add: set_match_def del: item_member.simps item_cased.simps)
    then show ?thesis unfolding mem by (auto simp: tolower0_def)
  qed
qed

lemma digit_range0:
  "b < 0x41 \<Longrightarrow> set_match ucd0 True [CRange a b] ch \<longleftrightarrow> a \<le> ch \<and> ch \<le> b"
  using uncased_range0 [of b a] uncased_member0 [of b a]
  by (simp add: set_match_def del: item_member.simps item_cased.simps)

lemma name_class0:
  "set_match ucd0 True [CRange 0x41 0x5A, CSpace, CLit 0x2D] ch \<longleftrightarrow>
     (0x41 \<le> ch \<and> ch \<le> 0x5A) \<or> (0x61 \<le> ch \<and> ch \<le> 0x7A) \<or>
     ch = 0x130 \<or> ch = 0x131 \<or> ch = 0x17F \<or> ch = 0x212A \<or> isspace ch \<or> ch = 0x2D"
proof -
  have "set_match ucd0 True [CRange 0x41 0x5A, CSpace, CLit 0x2D] ch \<longleftrightarrow>
      item_member ucd0 True (CRange 0x41 0x5A) (tolower0 ch) \<or> isspace (tolower0 ch) \<or>
      folded ucd0 0x2D (tolower0 ch)"
    using upper_cased0
    by (simp add: set_match_def Let_def del: item_member.simps(2) item_cased.simps(2))
  then show ?thesis unfolding upper_member0
    by (auto simp: tolower0_def folded_def ignorecase_fixes_def isspace_def)
qed

lemma arabic_class0:
  "set_match ucd0 True [CRange 0x600 0x6FF, CSpace] ch \<longleftrightarrow>
     (0x600 \<le> ch \<and> ch \<le> 0x6FF) \<or> isspace ch"
  using uncased_range0 [of "0x6FF" "0x600"] uncased_member0 [of "0x6FF" "0x600"]
  by (simp add: set_match_def del: item_member.simps(2) item_cased.simps(2))

lemma small_set0:
  "set_match ucd0 True [CDigit] ch \<longleftrightarrow> decimal0 ch \<noteq> None"
  "set_match ucd0 True [CSpace] ch \<longleftrightarrow> isspace ch"
  "set_match ucd0 True [CLit 0x2E, CLit 0x2F, CLit 0x2D] ch \<longleftrightarrow> ch = 0x2E \<or> ch = 0x2F \<or> ch = 0x2D"
  "set_match ucd0 True [CLit 0x65, CLit 0xE9] ch \<longleftrightarrow> ch = 0x65 \<or> ch = 0x45 \<or> ch = 0xE9 \<or> ch = 0xC9"
  by (auto simp: set_match_def iscased_def folded_def tolower0_def toupper0_def ignorecase_fixes_def)

lemmas class0 = upper_fold0 name_class0 arabic_class0 digit_range0 small_set0

lemmas eval0 = seq_def lits_def spaces0_def digits_def match_at_def search_def run_length_def
  lit_match_def folded_def iscased_def ignorecase_fixes_def isword_def at_boundary_def
  isspace_def tolower0_def toupper0_def decimal0_def isalnum0_def asc_def group0_def group_def
  slice_def

lemma zpad_2: "zpad 2 n = [0x30 + n div 10 mod 10, 0x30 + n mod 10]"
proof -
  have "zpad (Suc (Suc 0)) n = [0x30 + n div 10 mod 10, 0x30 + n mod 10]" by simp
  then show ?thesis by (simp add: numeral_2_eq_2)
qed

lemma str_nat_digit: "n < 10 \<Longrightarrow> str_nat n = [0x30 + n]"
  by (subst str_nat.simps) simp

lemma str_nat_step: "10 \<le> n \<Longrightarrow> str_nat n = str_nat (n div 10) @ [0x30 + n mod 10]"
  by (subst str_nat.simps) simp

lemma length_str_nat_le: "n < 10 ^ k \<Longrightarrow> 0 < k \<Longrightarrow> length (str_nat n) \<le> k"
proof (induction k arbitrary: n)
  case (Suc k)
  show ?case
  proof (cases "n < 10")
    case True
    then show ?thesis by (simp add: str_nat_digit)
  next
    case False
    then have k: "0 < k" using Suc.prems by (cases k) auto
    have "n div 10 < 10 ^ k" using Suc.prems(1) by (simp add: less_mult_imp_div_less mult.commute)
    from Suc.IH [OF this k] False show ?thesis by (simp add: str_nat_step)
  qed
qed simp

lemma str_nat_4:
  assumes "1000 \<le> n" "n < 10000"
  shows "str_nat n = [0x30 + n div 1000, 0x30 + n div 100 mod 10, 0x30 + n div 10 mod 10,
                      0x30 + n mod 10]"
proof -
  have a: "n div 10 div 10 = n div 100" and b: "n div 100 div 10 = n div 1000"
    by (simp_all add: div_mult2_eq [symmetric])
  have "10 \<le> n" "10 \<le> n div 10" "10 \<le> n div 100" "n div 1000 < 10" using assms by auto
  then show ?thesis
    using str_nat_step [of n] str_nat_step [of "n div 10"] str_nat_step [of "n div 100"]
      str_nat_digit [of "n div 1000"]
    by (simp add: a b)
qed

lemmas date0 = parse_date_def date_formats_def strptime_def directive_rx_def replace_char_def
  py_int_def valid_date_def days_in_month_def is_leap_def strftime_def strip_def zpad_2
  str_nat.simps

lemmas extract0 = extract_fields_def cleaned_text_def normalize_text_def nfkd_def
  decomposition0_def combining0_def arabic_chars_def clean_irrelevant_lines_def
  patterns_to_remove_def remove_fr_def remove_ar_def remove_expiry_def re_sub_def patterns_def
  initial_result_def cin_number_rx_def name_fr_def name_ar_def birth_date_fr_def
  birth_date_ar_def birth_place_fr_def birth_place_ar_def expiry_date_fr_def
  expiry_date_ar_def date_token_def result_key_def title_def

section \<open>The shape of the result\<close>

lemma key_neqs:
  "asc ''Cin Number'' \<noteq> asc ''CIN Number''" "asc ''Name'' \<noteq> asc ''CIN Number''"
  "asc ''Birth Date'' \<noteq> asc ''CIN Number''" "asc ''Birth Place'' \<noteq> asc ''CIN Number''"
  "asc ''Expiry Date'' \<noteq> asc ''CIN Number''"
  "asc ''Cin Number'' \<noteq> asc ''Full Name''" "asc ''Name'' \<noteq> asc ''Full Name''"
  "asc ''Birth Date'' \<noteq> asc ''Full Name''" "asc ''Birth Place'' \<noteq> asc ''Full Name''"
  "asc ''Expiry Date'' \<noteq> asc ''Full Name''"
  "asc ''Cin Number'' \<noteq> asc ''Date of Birth''" "asc ''Name'' \<noteq> asc ''Date of Birth''"
  "asc ''Birth Date'' \<noteq> asc ''Date of Birth''" "asc ''Birth Place'' \<noteq> asc ''Date of Birth''"
  "asc ''Expiry Date'' \<noteq> asc ''Date of Birth''"
  "asc ''Cin Number'' \<noteq> asc ''Place of Birth''" "asc ''Name'' \<noteq> asc ''Place of Birth''"
  "asc ''Birth Date'' \<noteq> asc ''Place of Birth''" "asc ''Birth Place'' \<noteq> asc ''Place of Birth''"
  "asc ''Expiry Date'' \<noteq> asc ''Place of Birth''"
  "asc ''Cin Number'' \<noteq> asc ''Expiry Date''" "asc ''Name'' \<noteq> asc ''Expiry Date''"
  "asc ''Birth Date'' \<noteq> asc ''Expiry Date''" "asc ''Birth Place'' \<noteq> asc ''Expiry Date''"
  by (simp_all add: asc_def)

lemma initial_lookup:
  "map_of initial_result (asc ''CIN Number'') = Some None"
  "map_of initial_result (asc ''Full Name'') = Some None"
  "map_of initial_result (asc ''Date of Birth'') = Some None"
  "map_of initial_result (asc ''Place of Birth'') = Some None"
  "map_of initial_result (asc ''Expiry Date'') = Some None"
  by (simp_all add: initial_result_def asc_def)

lemma declared_untouched:
  assumes "for_patterns U t patterns initial_result = Inr r"
  shows "map_of r (asc ''CIN Number'') = Some None"
    and "map_of r (asc ''Full Name'') = Some None"
    and "map_of r (asc ''Date of Birth'') = Some None"
    and "map_of r (asc ''Place of Birth'') = Some None"
proof -
  have un: "map_of r K = map_of initial_result K"
    if "asc ''Cin Number'' \<noteq> K" "asc ''Name'' \<noteq> K" "asc ''Birth Date'' \<noteq> K"
      "asc ''Birth Place'' \<noteq> K" "asc ''Expiry Date'' \<noteq> K" for K
  proof (rule for_patterns_unchanged [OF assms _ patterns_groups_ok])
    show "\<forall>ke \<in> set patterns. result_key (fst ke) \<noteq> K \<or> no_match U t (snd ke)"
      using that by (simp add: patterns_def result_keys)
  qed
  show "map_of r (asc ''CIN Number'') = Some None"
    using un [of "asc ''CIN Number''"] by (simp add: key_neqs initial_lookup)
  show "map_of r (asc ''Full Name'') = Some None"
    using un [of "asc ''Full Name''"] by (simp add: key_neqs initial_lookup)
  show "map_of r (asc ''Date of Birth'') = Some None"
    using un [of "asc ''Date of Birth''"] by (simp add: key_neqs initial_lookup)
  show "map_of r (asc ''Place of Birth'') = Some None"
    using un [of "asc ''Place of Birth''"] by (simp add: key_neqs initial_lookup)
qed

lemma expiry_untouched:
  assumes "for_patterns U t patterns initial_result = Inr r"
    and "search U True expiry_date_fr t = None" and "search U True expiry_date_ar t = None"
  shows "map_of r (asc ''Expiry Date'') = Some None"
proof -
  have "map_of r (asc ''Expiry Date'') = map_of initial_result (asc ''Expiry Date'')"
  proof (rule for_patterns_unchanged [OF assms(1) _ patterns_groups_ok])
    show "\<forall>ke \<in> set patterns. result_key (fst ke) \<noteq> asc ''Expiry Date'' \<or> no_match U t (snd ke)"
      using assms(2,3) by (simp add: patterns_def result_keys key_neqs)
  qed
  then show ?thesis by (simp add: initial_lookup)
qed

text \<open>
  Claim C2. For every input text \<open>extract\<close> returns normally (\<open>Inr\<close>: the AttributeError
  branch is never taken) and the returned dictionary binds each of the five declared
  keys, to a text or to \<open>None\<close>; when no pattern of a field matches the cleaned text,
  the declared key of the field is bound to \<open>None\<close>.
\<close>

theorem extract_returns_every_declared_key:
  "\<exists>r. extract_fields U text = Inr r \<and>
     (\<exists>v. map_of r (asc ''CIN Number'') = Some v) \<and>
     (\<exists>v. map_of r (asc ''Full Name'') = Some v) \<and>
     (\<exists>v. map_of r (asc ''Date of Birth'') = Some v) \<and>
     (\<exists>v. map_of r (asc ''Place of Birth'') = Some v) \<and>
     (\<exists>v. map_of r (asc ''Expiry Date'') = Some v) \<and>
     (search U True cin_number_rx (cleaned_text U text) = None \<longrightarrow>
        map_of r (asc ''CIN Number'') = Some None) \<and>
     (search U True name_fr (cleaned_text U text) = None \<and>
      search U True name_ar (cleaned_text U text) = None \<longrightarrow>
        map_of r (asc ''Full Name'') = Some None) \<and>
     (search U True birth_date_fr (cleaned_text U text) = None \<and>
      search U True birth_date_ar (cleaned_text U text) = None \<longrightarrow>
        map_of r (asc ''Date of Birth'') = Some None) \<and>
     (search U True birth_place_fr (cleaned_text U text) = None \<and>
      search U True birth_place_ar (cleaned_text U text) = None \<longrightarrow>
        map_of r (asc ''Place of Birth'') = Some None) \<and>
     (search U True expiry_date_fr (cleaned_text U text) = None \<and>
      search U True expiry_date_ar (cleaned_text U text) = None \<longrightarrow>
        map_of r (asc ''Expiry Date'') = Some None)"
proof -
  from for_patterns_total [OF patterns_groups_ok] obtain r
    where r: "for_patterns U (cleaned_text U text) patterns initial_result = Inr r" by blast
  have ex: "extract_fields U text = Inr r"
    using r by (simp add: extract_fields_def cleaned_text_def)
  have "map_of r (asc ''Expiry Date'') \<noteq> None"
    by (rule for_patterns_present [OF r patterns_groups_ok]) (simp add: initial_lookup)
  then have e: "\<exists>v. map_of r (asc ''Expiry Date'') = Some v" by auto
  note d = declared_untouched [OF r]
  show ?thesis
  proof (rule exI [of _ r], intro conjI impI)
    show "extract_fields U text = Inr r" by (rule ex)
    show "\<exists>v. map_of r (asc ''CIN Number'') = Some v" using d(1) by simp
    show "\<exists>v. map_of r (asc ''Full Name'') = Some v" using d(2) by simp
    show "\<exists>v. map_of r (asc ''Date of Birth'') = Some v" using d(3) by simp
    show "\<exists>v. map_of r (asc ''Place of Birth'') = Some v" using d(4) by simp
    show "\<exists>v. map_of r (asc ''Expiry Date'') = Some v" by (rule e)
    show "map_of r (asc ''CIN Number'') = Some None" by (rule d(1))
    show "map_of r (asc ''Full Name'') = Some None" by (rule d(2))
    show "map_of r (asc ''Date of Birth'') = Some None" by (rule d(3))
    show "map_of r (asc ''Place of Birth'') = Some None" by (rule d(4))
    assume "search U True expiry_date_fr (cleaned_text U text) = None \<and>
      search U True expiry_date_ar (cleaned_text U text) = None"
    then show "map_of r (asc ''Expiry Date'') = Some None"
      using expiry_untouched [OF r] by simp
  qed
qed

lemma no_match_text:
  "extract_fields ucd0 (asc ''random unrelated text'') =
     Inr [(asc ''CIN Number'', None), (asc ''Full Name'', None), (asc ''Date of Birth'', None),
          (asc ''Place of Birth'', None), (asc ''Expiry Date'', None)]"
  "search ucd0 True expiry_date_fr (cleaned_text ucd0 (asc ''random unrelated text'')) = None"
  "search ucd0 True expiry_date_ar (cleaned_text ucd0 (asc ''random unrelated text'')) = None"
  by (simp_all add: extract0 class0 eval0 strip_def replace_char_def)

theorem extract_returns_every_declared_key_witness:
  "extract_fields ucd0 (asc ''random unrelated text'') =
     Inr [(asc ''CIN Number'', None), (asc ''Full Name'', None), (asc ''Date of Birth'', None),
          (asc ''Place of Birth'', None), (asc ''Expiry Date'', None)] \<and>
   search ucd0 True expiry_date_fr (cleaned_text ucd0 (asc ''random unrelated text'')) = None \<and>
   search ucd0 True expiry_date_ar (cleaned_text ucd0 (asc ''random unrelated text'')) = None \<and>
   (\<exists>r. extract_fields ucd0 (asc ''random unrelated text'') = Inr r \<and>
        map_of r (asc ''Expiry Date'') = Some None)"
  using extract_returns_every_declared_key [of ucd0 "asc ''random unrelated text''"]
    no_match_text
  by auto

text \<open>
  Claim C3. For every input text the declared keys \<open>CIN Number\<close>, \<open>Full Name\<close>,
  \<open>Date of Birth\<close> and \<open>Place of Birth\<close> are bound to \<open>None\<close> in the result: a match is
  stored under the key \<open>key.replace('_', ' ').title()\<close>, which is \<open>Cin Number\<close>, \<open>Name\<close>,
  \<open>Birth Date\<close>, \<open>Birth Place\<close> or \<open>Expiry Date\<close>. The result has no key besides the five
  declared ones and these four, and of the declared keys only \<open>Expiry Date\<close> is ever
  written.
\<close>

theorem declared_keys_stay_absent:
  "\<exists>r. extract_fields U text = Inr r \<and>
     map_of r (asc ''CIN Number'') = Some None \<and>
     map_of r (asc ''Full Name'') = Some None \<and>
     map_of r (asc ''Date of Birth'') = Some None \<and>
     map_of r (asc ''Place of Birth'') = Some None \<and>
     fst ` set r \<subseteq>
       {asc ''CIN Number'', asc ''Full Name'', asc ''Date of Birth'', asc ''Place of Birth'',
        asc ''Expiry Date''} \<union>
       {asc ''Cin Number'', asc ''Name'', asc ''Birth Date'', asc ''Birth Place''} \<and>
     result_key (asc ''cin_number'') = asc ''Cin Number'' \<and>
     result_key (asc ''name'') = asc ''Name'' \<and>
     result_key (asc ''birth_date'') = asc ''Birth Date'' \<and>
     result_key (asc ''birth_place'') = asc ''Birth Place'' \<and>
     result_key (asc ''expiry_date'') = asc ''Expiry Date''"
proof -
  from for_patterns_total [OF patterns_groups_ok] obtain r
    where r: "for_patterns U (cleaned_text U text) patterns initial_result = Inr r" by blast
  have ex: "extract_fields U text = Inr r"
    using r by (simp add: extract_fields_def cleaned_text_def)
  have keys: "fst ` set r \<subseteq>
       {asc ''CIN Number'', asc ''Full Name'', asc ''Date of Birth'', asc ''Place of Birth'',
        asc ''Expiry Date''} \<union>
       {asc ''Cin Number'', asc ''Name'', asc ''Birth Date'', asc ''Birth Place''}"
  proof
    fix k assume "k \<in> fst ` set r"
    from for_patterns_keys [OF r patterns_groups_ok this]
    have "k \<in> fst ` set initial_result \<or> k \<in> result_key ` fst ` set patterns" .
    moreover have "fst ` set initial_result =
        {asc ''CIN Number'', asc ''Full Name'', asc ''Date of Birth'', asc ''Place of Birth'',
         asc ''Expiry Date''}"
      by (simp add: initial_result_def)
    moreover have "result_key ` fst ` set patterns =
        {asc ''Cin Number'', asc ''Name'', asc ''Birth Date'', asc ''Birth Place'',
         asc ''Expiry Date''}"
      by (simp add: patterns_def result_keys)
    ultimately show "k \<in> {asc ''CIN Number'', asc ''Full Name'', asc ''Date of Birth'',
        asc ''Place of Birth'', asc ''Expiry Date''} \<union>
       {asc ''Cin Number'', asc ''Name'', asc ''Birth Date'', asc ''Birth Place''}"
      by blast
  qed
  show ?thesis
    using ex declared_untouched [OF r] keys by (simp add: result_keys)
qed

lemma nine_keys_text:
  "extract_fields ucd0 (asc ''A123456 NOM ET PRENOM:X Ne le 01.01.2000 a RABAT'') =
     Inr [(asc ''CIN Number'', None), (asc ''Full Name'', None), (asc ''Date of Birth'', None),
          (asc ''Place of Birth'', None), (asc ''Expiry Date'', None),
          (asc ''Cin Number'', Some (asc ''A123456'')), (asc ''Name'', Some (asc ''X Ne le'')),
          (asc ''Birth Date'', Some (asc ''2000-01-01'')),
          (asc ''Birth Place'', Some (asc ''RABAT''))]"
  by (simp add: extract0 class0 eval0 date0)

theorem declared_keys_stay_absent_witness:
  "extract_fields ucd0 (asc ''A123456 NOM ET PRENOM:X Ne le 01.01.2000 a RABAT'') =
     Inr [(asc ''CIN Number'', None), (asc ''Full Name'', None), (asc ''Date of Birth'', None),
          (asc ''Place of Birth'', None), (asc ''Expiry Date'', None),
          (asc ''Cin Number'', Some (asc ''A123456'')), (asc ''Name'', Some (asc ''X Ne le'')),
          (asc ''Birth Date'', Some (asc ''2000-01-01'')),
          (asc ''Birth Place'', Some (asc ''RABAT''))] \<and>
   (\<exists>r. extract_fields ucd0 (asc ''A123456 NOM ET PRENOM:X Ne le 01.01.2000 a RABAT'') = Inr r \<and>
        map_of r (asc ''CIN Number'') = Some None \<and> map_of r (asc ''Full Name'') = Some None \<and>
        map_of r (asc ''Date of Birth'') = Some None \<and>
        map_of r (asc ''Place of Birth'') = Some None \<and> length r = 9)"
  using declared_keys_stay_absent [of ucd0 "asc ''A123456 NOM ET PRENOM:X Ne le 01.01.2000 a RABAT''"]
    nine_keys_text
  by auto

section \<open>parse_date\<close>

lemma match_at_caps:
  "match_at U ic r s i = Some m \<Longrightarrow> sets_group j r \<Longrightarrow> map_of (m_groups m) j \<noteq> None"
  using first_match_caps [of U ic r s "[i]" m j] by (simp split: option.splits)

lemma format_groups:
  assumes "fmt \<in> set date_formats"
  shows "sets_group 1 (format_rx fmt)" "sets_group 2 (format_rx fmt)" "sets_group 3 (format_rx fmt)"
  using assms by (auto simp: date_formats_def directive_rx_def seq_def)

lemma strptime_no_type_error:
  assumes "fmt \<in> set date_formats"
  shows "strptime U d fmt \<noteq> Inl TypeError"
proof (cases "match_at U True (format_rx fmt) d 0")
  case None
  then show ?thesis by (simp add: strptime_def)
next
  case (Some found)
  from match_at_caps [OF Some] format_groups [OF assms]
  have "map_of (m_groups found) 1 \<noteq> None" "map_of (m_groups found) 2 \<noteq> None"
    "map_of (m_groups found) 3 \<noteq> None" by blast+
  then obtain g1 g2 g3 where "group d found 1 = Some g1" "group d found 2 = Some g2"
    "group d found 3 = Some g3"
    by (auto simp: group_def)
  then show ?thesis using Some by (simp add: strptime_def split: option.splits)
qed

lemma strptime_value_error:
  "fmt \<in> set date_formats \<Longrightarrow> strptime U d fmt = Inl e \<Longrightarrow> e = ValueError"
  using strptime_no_type_error [of fmt U d] by (cases e) auto

lemma strptime_valid:
  "strptime U d fmt = Inr (y, m, da) \<Longrightarrow> valid_date y m da"
  by (auto simp: strptime_def split: option.splits if_splits)

lemma mod_10_digit: "(n::nat) mod 10 \<le> 9"
  using mod_less_divisor [of 10 n] by simp

lemma iso_strftime:
  assumes "valid_date y m d"
  shows "is_iso_date (strftime (y, m, d)) \<longleftrightarrow> 1000 \<le> y"
proof (cases "1000 \<le> y")
  case True
  moreover have "y < 10000" using assms by (simp add: valid_date_def)
  moreover have "y div 1000 \<le> 9" using \<open>y < 10000\<close> by simp
  ultimately show ?thesis
    by (simp add: is_iso_date_def strftime_def zpad_2 str_nat_4 mod_10_digit)
next
  case False
  then have "length (str_nat y) \<le> 3" using length_str_nat_le [of y 3] by simp
  then have "length (strftime (y, m, d)) \<noteq> 10" by (simp add: strftime_def zpad_2)
  then show ?thesis using False by (simp add: is_iso_date_def)
qed

lemma try_formats_None:
  "set fmts \<subseteq> set date_formats \<Longrightarrow>
   try_formats U d fmts = None \<longleftrightarrow> (\<forall>fmt \<in> set fmts. \<forall>dt. strptime U d fmt \<noteq> Inr dt)"
proof (induction fmts)
  case (Cons fmt fmts)
  show ?case
  proof (cases "strptime U d fmt")
    case (Inl e)
    then have "e = ValueError" using strptime_value_error Cons.prems by auto
    then show ?thesis using Inl Cons by auto
  next
    case (Inr dt)
    then show ?thesis by (cases dt) auto
  qed
qed simp

lemma try_formats_Some:
  "try_formats U d fmts = Some r \<Longrightarrow> \<exists>fmt \<in> set fmts. \<exists>dt. strptime U d fmt = Inr dt \<and> r = strftime dt"
proof (induction fmts)
  case (Cons fmt fmts)
  then show ?case by (cases "strptime U d fmt") (auto split: exn.splits)
qed simp

lemma date_examples:
  "parse_date ucd0 (asc ''31/04/2021'') = None"
  "parse_date ucd0 (asc ''hello'') = None"
  "parse_date ucd0 (asc ''30.04.2021'') = Some (asc ''2021-04-30'')"
  "parse_date ucd0 (asc ''12/05/2021'') = Some (asc ''2021-05-12'')"
  "parse_date ucd0 (asc ''03/04/2020'') = Some (asc ''2020-04-03'')"
  "strptime ucd0 (asc ''03/04/2020'') ''%d/%m/%Y'' = Inr (2020, 4, 3)"
  "strptime ucd0 (asc ''03/04/2020'') ''%m/%d/%Y'' = Inr (2020, 3, 4)"
  "strptime ucd0 (asc ''2020/04/03'') ''%d/%m/%Y'' = Inl ValueError"
  "parse_date ucd0 (asc ''2020-04-03'') = Some (asc ''2020-04-03'')"
  "parse_date ucd0 (asc ''12/31/2021'') = Some (asc ''2021-12-31'')"
  by (simp_all add: date0 class0 eval0)

text \<open>
  The order of the layouts, for every token and whatever the Unicode tables:
  \<open>parse_date\<close> replaces \<open>.\<close> and \<open>-\<close> by \<open>/\<close> and tries day/month/year, year/month/day and
  month/day/year in this order; the result is the first date that \<open>strptime\<close> accepts,
  written by \<open>strftime\<close>.
\<close>

lemma parse_date_first_layout:
  "parse_date U t =
     (if t = [] then None
      else let d = replace_char 0x2D 0x2F (replace_char 0x2E 0x2F t)
           in case strptime U d ''%d/%m/%Y'' of
                Inr dt \<Rightarrow> Some (strftime dt)
              | Inl _ \<Rightarrow>
                 (case strptime U d ''%Y/%m/%d'' of
                    Inr dt \<Rightarrow> Some (strftime dt)
                  | Inl _ \<Rightarrow>
                     (case strptime U d ''%m/%d/%Y'' of
                        Inr dt \<Rightarrow> Some (strftime dt)
                      | Inl _ \<Rightarrow> None)))"
proof -
  have ve: "strptime U d fmt = Inl e \<Longrightarrow> fmt \<in> set date_formats \<Longrightarrow> e = ValueError" for d fmt e
    using strptime_value_error by blast
  show ?thesis
    by (auto simp: parse_date_def date_formats_def Let_def split: sum.splits exn.splits
        dest: ve)
qed

text \<open>
  \<open>parse_date\<close> returns for every token: the ValueError of \<open>strptime\<close> is caught, and the
  TypeError branch is never reached. The result is \<open>None\<close> exactly when the token is empty
  or no layout reads it as a date of the calendar. Otherwise it is that date as \<open>strftime\<close>
  writes it, which has the shape \<open>YYYY-MM-DD\<close> exactly when the year is 1000 or later.
\<close>

lemma parse_date_total:
  "(parse_date U t = None \<longleftrightarrow>
      t = [] \<or> (\<forall>fmt \<in> set date_formats. \<forall>dt.
                  strptime U (replace_char 0x2D 0x2F (replace_char 0x2E 0x2F t)) fmt \<noteq> Inr dt)) \<and>
   (\<forall>r. parse_date U t = Some r \<longrightarrow>
      (\<exists>y m d. valid_date y m d \<and> r = strftime (y, m, d) \<and> (is_iso_date r \<longleftrightarrow> 1000 \<le> y)))"
proof (intro conjI allI impI)
  show "parse_date U t = None \<longleftrightarrow>
      t = [] \<or> (\<forall>fmt \<in> set date_formats. \<forall>dt.
                  strptime U (replace_char 0x2D 0x2F (replace_char 0x2E 0x2F t)) fmt \<noteq> Inr dt)"
    using try_formats_None [of date_formats U] by (simp add: parse_date_def)
next
  fix r assume "parse_date U t = Some r"
  then have "try_formats U (replace_char 0x2D 0x2F (replace_char 0x2E 0x2F t)) date_formats = Some r"
    by (simp add: parse_date_def split: if_splits)
  from try_formats_Some [OF this] obtain fmt dt
    where dt: "strptime U (replace_char 0x2D 0x2F (replace_char 0x2E 0x2F t)) fmt = Inr dt"
      and r: "r = strftime dt" by blast
  obtain y m d where ymd: "dt = (y, m, d)" by (cases dt)
  from strptime_valid [OF dt [unfolded ymd]] have v: "valid_date y m d" .
  have "is_iso_date r \<longleftrightarrow> 1000 \<le> y" using r ymd iso_strftime [OF v] by simp
  then show "\<exists>y m d. valid_date y m d \<and> r = strftime (y, m, d) \<and> (is_iso_date r \<longleftrightarrow> 1000 \<le> y)"
    using v r ymd by blast
qed

text \<open>
  Claim C6. \<open>parse_date\<close> tries day/month/year first, so \<open>12/05/2021\<close> gives \<open>2021-05-12\<close>
  and \<open>03/04/2020\<close> gives \<open>2020-04-03\<close>, as the claim says. The first layout also reads
  \<open>03/04/0999\<close>, as the 3rd of April 999, and there the result is \<open>999-04-03\<close>: the year
  is written without padding, and the result is not of the shape \<open>YYYY-MM-DD\<close> that the
  claim and the docstring of \<open>parse_date\<close> give.
\<close>

theorem parse_date_short_year_layout:
  "strptime ucd0 (asc ''03/04/0999'') ''%d/%m/%Y'' = Inr (999, 4, 3) \<and>
   parse_date ucd0 (asc ''03/04/0999'') = Some (asc ''999-04-03'') \<and>
   \<not> is_iso_date (asc ''999-04-03'') \<and>
   parse_date ucd0 (asc ''12/05/2021'') = Some (asc ''2021-05-12'') \<and>
   parse_date ucd0 (asc ''03/04/2020'') = Some (asc ''2020-04-03'')"
  by (simp add: date0 class0 eval0 is_iso_date_def)

text \<open>
  Claim C7. \<open>parse_date\<close> gives \<open>None\<close> for the 31st of April and for a token that is no
  date, as the claim says, and it raises for no token. For \<open>01/01/0999\<close>, a date of the
  calendar, it returns \<open>999-01-01\<close>, nine characters: not a \<open>YYYY-MM-DD\<close> string.
\<close>

theorem parse_date_year_below_1000:
  "parse_date ucd0 (asc ''01/01/0999'') = Some (asc ''999-01-01'') \<and>
   valid_date 999 1 1 \<and>
   length (asc ''999-01-01'') = 9 \<and>
   \<not> is_iso_date (asc ''999-01-01'') \<and>
   parse_date ucd0 (asc ''31/04/2021'') = None \<and>
   parse_date ucd0 (asc ''hello'') = None"
  by (simp add: date0 class0 eval0 is_iso_date_def)

section \<open>The scenarios of the specification\<close>

text \<open>
  Claim C1, evaluated. For the French record of the specification \<open>extract\<close> leaves
  \<open>Full Name\<close> and \<open>Date of Birth\<close> at \<open>None\<close>: the name goes under the key \<open>Name\<close> and,
  the search ignoring case, runs on through \<open>Ne le\<close>; the birth date goes under
  \<open>Birth Date\<close>. Only \<open>Expiry Date\<close> holds the value the specification names.
\<close>

theorem french_record_result:
  "extract_fields ucd0
     (asc ''NOM ET PRENOM: AHMED ALAMI N'' @ [0xE9] @
      asc '' le 12.05.1990 Valable jusqu'au 12.05.2030'') =
   Inr [(asc ''CIN Number'', None), (asc ''Full Name'', None), (asc ''Date of Birth'', None),
        (asc ''Place of Birth'', None), (asc ''Expiry Date'', Some (asc ''2030-05-12'')),
        (asc ''Name'', Some (asc ''AHMED ALAMI Ne le'')),
        (asc ''Birth Date'', Some (asc ''1990-05-12'')),
        (asc ''Birth Place'', Some (asc ''HMED ALAMI Ne le''))]"
  by (simp add: extract0 class0 eval0 date0)

text \<open>
  Claim C4, evaluated. For the text with the two French titles and \<open>AB123456\<close> the titles
  are removed and the number is found, but it is stored under \<open>Cin Number\<close>; the declared
  key \<open>CIN Number\<close> stays \<open>None\<close>. No value holds a title.
\<close>

theorem boilerplate_record_result:
  "extract_fields ucd0 (asc ''ROYAUME DU MAROC CARTE NATIONALE D'IDENTITE AB123456'') =
   Inr [(asc ''CIN Number'', None), (asc ''Full Name'', None), (asc ''Date of Birth'', None),
        (asc ''Place of Birth'', None), (asc ''Expiry Date'', None),
        (asc ''Cin Number'', Some (asc ''AB123456'')), (asc ''Birth Place'', Some (asc ''B''))]"
  by (simp add: extract0 class0 eval0 date0)

section \<open>The ID-number rule\<close>

lemma takeWhile_length_ge:
  "k \<le> length (takeWhile P xs) \<longleftrightarrow> k \<le> length xs \<and> (\<forall>i<k. P (xs ! i))"
proof (induction xs arbitrary: k)
  case Nil
  then show ?case by auto
next
  case (Cons x xs)
  show ?case
  proof (cases k)
    case 0
    then show ?thesis by simp
  next
    case (Suc j)
    then show ?thesis using Cons.IH [of j] by (auto simp: less_Suc_eq_0_disj)
  qed
qed

lemma run_length_ge:
  assumes "0 < k"
  shows "k \<le> run_length U ic a hi s p \<longleftrightarrow>
     (case hi of None \<Rightarrow> True | Some h \<Rightarrow> k \<le> h) \<and> p + k \<le> length s \<and>
     (\<forall>i<k. atom_match U ic a (s ! (p + i)))"
proof -
  have "k \<le> length (takeWhile (atom_match U ic a) (drop p s)) \<longleftrightarrow>
      p + k \<le> length s \<and> (\<forall>i<k. atom_match U ic a (s ! (p + i)))"
    unfolding takeWhile_length_ge using assms by (cases "p \<le> length s") auto
  then show ?thesis by (cases hi) (auto simp: run_length_def Let_def)
qed

lemma ms_Rep_iff:
  "e \<in> set (ms U ic s (Rep a lo hi) st) \<longleftrightarrow>
     (\<exists>k. lo \<le> k \<and> k \<le> run_length U ic a hi s (fst st) \<and> e = (fst st + k, snd st))"
  by (auto simp: less_Suc_eq_le)

lemma ms_Cat_iff:
  "e \<in> set (ms U ic s (Cat r1 r2) st) \<longleftrightarrow>
     (\<exists>e1. e1 \<in> set (ms U ic s r1 st) \<and> e \<in> set (ms U ic s r2 e1))"
  by auto

lemma ms_WordB_iff:
  "e \<in> set (ms U ic s WordB st) \<longleftrightarrow> at_boundary U s (fst st) \<and> e = st"
  by auto

lemma ms_Eps_iff: "e \<in> set (ms U ic s Eps st) \<longleftrightarrow> e = st"
  by auto

lemma ms_Rep_Cat:
  "e \<in> set (ms U ic s (Cat (Rep a lo hi) r) st) \<longleftrightarrow>
     (\<exists>k. lo \<le> k \<and> k \<le> run_length U ic a hi s (fst st) \<and>
          e \<in> set (ms U ic s r (fst st + k, snd st)))"
  unfolding ms_Cat_iff ms_Rep_iff by blast

lemma ms_WordB_Cat:
  "e \<in> set (ms U ic s (Cat WordB r) st) \<longleftrightarrow>
     at_boundary U s (fst st) \<and> e \<in> set (ms U ic s r st)"
  unfolding ms_Cat_iff ms_WordB_iff by blast

lemma first_match_None:
  "first_match U ic r s js = None \<longleftrightarrow> (\<forall>j \<in> set js. ms U ic s r (j, []) = [])"
  by (induction js) (auto simp: match_at_def split: option.splits list.splits)

lemma search_iff:
  "search U ic r s \<noteq> None \<longleftrightarrow> (\<exists>p e. p \<le> length s \<and> e \<in> set (ms U ic s r (p, [])))"
proof -
  have "search U ic r s \<noteq> None \<longleftrightarrow> (\<exists>p \<le> length s. ms U ic s r (p, []) \<noteq> [])"
    by (auto simp del: upt_Suc simp add: search_def first_match_None less_Suc_eq_le)
  also have "\<dots> \<longleftrightarrow> (\<exists>p e. p \<le> length s \<and> e \<in> set (ms U ic s r (p, [])))"
    by (metis last_in_set all_not_in_conv set_empty)
  finally show ?thesis .
qed

lemma digit_class: "set_match U True [CDigit] ch \<longleftrightarrow> decimal U ch \<noteq> None"
  by (simp add: set_match_def)

lemma cin_match_at:
  "e \<in> set (ms U True s cin_number_rx (p, [])) \<longleftrightarrow>
     (\<exists>k. (k = 1 \<or> k = 2) \<and> p + k + 6 \<le> length s \<and> at_boundary U s p \<and>
        (\<forall>i<k. set_match U True [CRange 0x41 0x5A] (s ! (p + i))) \<and>
        (\<forall>i<6. decimal U (s ! (p + k + i)) \<noteq> None) \<and> at_boundary U s (p + k + 6) \<and>
        e = (p + k + 6, []))"
  (is "?L \<longleftrightarrow> ?R")
proof -
  let ?letters = "In [CRange 0x41 0x5A]" and ?dig = "In [CDigit]"
  have "?L \<longleftrightarrow> at_boundary U s p \<and>
      (\<exists>k. 1 \<le> k \<and> k \<le> run_length U True ?letters (Some 2) s p \<and>
        (\<exists>j. 6 \<le> j \<and> j \<le> run_length U True ?dig (Some 6) s (p + k) \<and>
           at_boundary U s (p + k + j) \<and> e = (p + k + j, [])))"
    unfolding cin_number_rx_def seq_def digits_def foldr.simps o_apply
    by (simp only: id_apply ms_Rep_Cat ms_WordB_Cat ms_Eps_iff fst_conv snd_conv)
  also have "\<dots> \<longleftrightarrow> ?R"
  proof -
    have a: "k \<le> run_length U True ?letters (Some 2) s p \<longleftrightarrow>
        k \<le> 2 \<and> p + k \<le> length s \<and> (\<forall>i<k. set_match U True [CRange 0x41 0x5A] (s ! (p + i)))"
      if "1 \<le> k" for k
      using run_length_ge [of k U True ?letters "Some 2" s p] that by simp
    have b: "j \<le> run_length U True ?dig (Some 6) s q \<longleftrightarrow>
        j \<le> 6 \<and> q + j \<le> length s \<and> (\<forall>i<j. decimal U (s ! (q + i)) \<noteq> None)"
      if "6 \<le> j" for j q
      using run_length_ge [of j U True ?dig "Some 6" s q] that by (simp add: digit_class)
    show ?thesis
    proof
      assume "at_boundary U s p \<and>
      (\<exists>k. 1 \<le> k \<and> k \<le> run_length U True ?letters (Some 2) s p \<and>
        (\<exists>j. 6 \<le> j \<and> j \<le> run_length U True ?dig (Some 6) s (p + k) \<and>
           at_boundary U s (p + k + j) \<and> e = (p + k + j, [])))"
      then obtain k j where bp: "at_boundary U s p" and k1: "1 \<le> k"
        and k: "k \<le> run_length U True ?letters (Some 2) s p" and j6: "6 \<le> j"
        and j: "j \<le> run_length U True ?dig (Some 6) s (p + k)"
        and be: "at_boundary U s (p + k + j)" and e: "e = (p + k + j, [])" by blast
      from a [OF k1] k have k2: "k \<le> 2"
        and kl: "\<forall>i<k. set_match U True [CRange 0x41 0x5A] (s ! (p + i))" by simp_all
      from b [OF j6] j have j6': "j = 6" and len: "p + k + 6 \<le> length s"
        and jd: "\<forall>i<6. decimal U (s ! (p + k + i)) \<noteq> None" using j6 by auto
      have "k = 1 \<or> k = 2" using k1 k2 by arith
      then show ?R using bp kl jd be e len j6' by blast
    next
      assume ?R
      then obtain k where k12: "k = 1 \<or> k = 2" and len: "p + k + 6 \<le> length s"
        and bp: "at_boundary U s p"
        and kl: "\<forall>i<k. set_match U True [CRange 0x41 0x5A] (s ! (p + i))"
        and jd: "\<forall>i<6. decimal U (s ! (p + k + i)) \<noteq> None"
        and be: "at_boundary U s (p + k + 6)" and e: "e = (p + k + 6, [])" by blast
      have k1: "1 \<le> k" and k2: "k \<le> 2" using k12 by auto
      have "k \<le> run_length U True ?letters (Some 2) s p"
        using a [OF k1] k2 kl len by simp
      moreover have "6 \<le> run_length U True ?dig (Some 6) s (p + k)"
        using b [of 6 "p + k"] jd len by simp
      ultimately show "at_boundary U s p \<and>
      (\<exists>k. 1 \<le> k \<and> k \<le> run_length U True ?letters (Some 2) s p \<and>
        (\<exists>j. 6 \<le> j \<and> j \<le> run_length U True ?dig (Some 6) s (p + k) \<and>
           at_boundary U s (p + k + j) \<and> e = (p + k + j, [])))"
        using bp be e k1 by blast
    qed
  qed
  finally show ?thesis .
qed

lemma cin_examples:
  "map_option (group0 ([0x131] @ asc ''123456'')) (search ucd0 True cin_number_rx ([0x131] @ asc ''123456'')) =
     Some ([0x131] @ asc ''123456'')"
  "map_option (group0 ([0x212A] @ asc ''123456'')) (search ucd0 True cin_number_rx ([0x212A] @ asc ''123456'')) =
     Some ([0x212A] @ asc ''123456'')"
  "map_option (group0 (asc ''AB123456'')) (search ucd0 True cin_number_rx (asc ''AB123456'')) =
     Some (asc ''AB123456'')"
  "map_option (group0 (asc ''ab123456'')) (search ucd0 True cin_number_rx (asc ''ab123456'')) =
     Some (asc ''ab123456'')"
  "search ucd0 True cin_number_rx (asc ''AB12345'') = None"
  "search ucd0 True cin_number_rx (asc ''ABC123456'') = None"
  by (simp_all add: cin_number_rx_def class0 eval0)

text \<open>
  Claim C10, as stated, fails: the rule is searched with IGNORECASE, so a token in lower
  case matches too.
\<close>

theorem cin_lower_case_counterexample:
  "map_option (group0 (asc ''ab123456'')) (search ucd0 True cin_number_rx (asc ''ab123456'')) =
     Some (asc ''ab123456'')"
  by (simp add: cin_number_rx_def class0 eval0)

text \<open>
  Claim C10, amended. Searched ignoring case, as \<open>extract\<close> does, the ID-number rule
  matches somewhere in a text exactly when the text has, between two word boundaries, one
  or two characters of the case-insensitive class \<open>[A-Z]\<close> followed by exactly six decimal
  digits. The class holds the Latin letters of either case and the four characters that
  the engine equates with one of them: capital \<open>I\<close> with dot (U+0130), dotless \<open>i\<close>
  (U+0131), long \<open>s\<close> (U+017F) and the Kelvin sign (U+212A). \<open>AB123456\<close> and \<open>ab123456\<close>
  match, and so does dotless \<open>i\<close> before \<open>123456\<close>; \<open>AB12345\<close> and \<open>ABC123456\<close> do not.
\<close>

theorem cin_rule_ignoring_case:
  "(search U True cin_number_rx s \<noteq> None \<longleftrightarrow>
     (\<exists>p k. (k = 1 \<or> k = 2) \<and> p + k + 6 \<le> length s \<and> at_boundary U s p \<and>
        (\<forall>i<k. set_match U True [CRange 0x41 0x5A] (s ! (p + i))) \<and>
        (\<forall>i<6. decimal U (s ! (p + k + i)) \<noteq> None) \<and> at_boundary U s (p + k + 6))) \<and>
   (set_match ucd0 True [CRange 0x41 0x5A] ch \<longleftrightarrow>
      (0x41 \<le> ch \<and> ch \<le> 0x5A) \<or> (0x61 \<le> ch \<and> ch \<le> 0x7A) \<or>
      ch = 0x130 \<or> ch = 0x131 \<or> ch = 0x17F \<or> ch = 0x212A) \<and>
   map_option (group0 ([0x131] @ asc ''123456''))
       (search ucd0 True cin_number_rx ([0x131] @ asc ''123456'')) =
     Some ([0x131] @ asc ''123456'') \<and>
   map_option (group0 (asc ''AB123456'')) (search ucd0 True cin_number_rx (asc ''AB123456'')) =
     Some (asc ''AB123456'') \<and>
   map_option (group0 (asc ''ab123456'')) (search ucd0 True cin_number_rx (asc ''ab123456'')) =
     Some (asc ''ab123456'') \<and>
   search ucd0 True cin_number_rx (asc ''AB12345'') = None \<and>
   search ucd0 True cin_number_rx (asc ''ABC123456'') = None"
proof -
  have "search U True cin_number_rx s \<noteq> None \<longleftrightarrow>
     (\<exists>p k. (k = 1 \<or> k = 2) \<and> p + k + 6 \<le> length s \<and> at_boundary U s p \<and>
        (\<forall>i<k. set_match U True [CRange 0x41 0x5A] (s ! (p + i))) \<and>
        (\<forall>i<6. decimal U (s ! (p + k + i)) \<noteq> None) \<and> at_boundary U s (p + k + 6))"
    unfolding search_iff cin_match_at by (intro iffI; elim exE conjE; (intro exI conjI)?) auto
  then show ?thesis using cin_examples upper_fold0 by simp
qed

theorem cin_rule_ignoring_case_witness:
  "search ucd0 True cin_number_rx (asc ''x A123456 y'') \<noteq> None \<and>
   at_boundary ucd0 (asc ''x A123456 y'') 2 \<and> at_boundary ucd0 (asc ''x A123456 y'') 9 \<and>
   set_match ucd0 True [CRange 0x41 0x5A] (asc ''x A123456 y'' ! 2) \<and>
   search ucd0 True cin_number_rx (asc ''AB1234567'') = None \<and>
   \<not> at_boundary ucd0 (asc ''AB1234567'') 8"
proof -
  have "search ucd0 True cin_number_rx (asc ''x A123456 y'') \<noteq> None"
    "search ucd0 True cin_number_rx (asc ''AB1234567'') = None"
    by (simp_all add: cin_number_rx_def class0 eval0)
  moreover have "at_boundary ucd0 (asc ''x A123456 y'') 2"
    "at_boundary ucd0 (asc ''x A123456 y'') 9"
    "set_match ucd0 True [CRange 0x41 0x5A] (asc ''x A123456 y'' ! 2)"
    "\<not> at_boundary ucd0 (asc ''AB1234567'') 8"
    by (simp_all add: class0 eval0)
  ultimately show ?thesis
    using cin_rule_ignoring_case [of ucd0 "asc ''x A123456 y''"] by simp
qed

section \<open>normalize_text\<close>

subsection \<open>NFKD followed by the removal of combining marks\<close>

lemma filter_canonical_order:
  "filter (\<lambda>c. ccc c = 0) (canonical_order ccc t) = filter (\<lambda>c. ccc c = 0) t"
proof (induction ccc t rule: canonical_order.induct)
  case (1 ccc)
  then show ?case by simp
next
  case (2 ccc c cs)
  show ?case
  proof (cases "ccc c = 0")
    case True
    then show ?thesis using 2 by simp
  next
    case False
    let ?run = "takeWhile (\<lambda>x. ccc x \<noteq> 0) cs" and ?rest = "dropWhile (\<lambda>x. ccc x \<noteq> 0) cs"
    have run: "filter (\<lambda>c. ccc c = 0) ?run = []"
      by (auto simp: filter_empty_conv dest: set_takeWhileD)
    have "\<forall>x \<in> set (sort_key ccc (c # ?run)). \<not> ccc x = 0"
      unfolding set_sort using False by (auto dest: set_takeWhileD)
    then have "filter (\<lambda>c. ccc c = 0) (sort_key ccc (c # ?run)) = []"
      by (rule filter_False)
    moreover have "filter (\<lambda>c. ccc c = 0) cs = filter (\<lambda>c. ccc c = 0) ?rest"
    proof -
      have "filter (\<lambda>c. ccc c = 0) cs = filter (\<lambda>c. ccc c = 0) (?run @ ?rest)"
        by (simp only: takeWhile_dropWhile_id)
      also have "\<dots> = filter (\<lambda>c. ccc c = 0) ?run @ filter (\<lambda>c. ccc c = 0) ?rest"
        by (rule filter_append)
      also have "\<dots> = filter (\<lambda>c. ccc c = 0) ?rest"
        by (simp only: run append_Nil)
      finally show ?thesis .
    qed
    ultimately show ?thesis using False 2(2) by simp
  qed
qed

lemma canonical_order_starters:
  "\<forall>c \<in> set t. ccc c = 0 \<Longrightarrow> canonical_order ccc t = t"
  by (induction t) auto

lemma normalize_text_eq:
  "normalize_text U text = map canon (skeleton U text)"
proof -
  have pt: "fold (\<lambda>(ar_char, replacement) c. if c = ar_char then replacement else c)
      arabic_chars c = canon c" for c
    by (simp add: arabic_chars_def canon_def)
  have "fold (\<lambda>(ar_char, replacement) t. replace_char ar_char replacement t) ps t =
      map (fold (\<lambda>(ar_char, replacement) c. if c = ar_char then replacement else c) ps) t"
    for ps :: "(nat \<times> nat) list" and t
    by (induction ps arbitrary: t) (auto simp: replace_char_def comp_def)
  then have "fold (\<lambda>(ar_char, replacement) t. replace_char ar_char replacement t) arabic_chars t =
      map canon t" for t
    using pt by simp
  then show ?thesis
    by (simp add: normalize_text_def skeleton_def nfkd_def Let_def filter_canonical_order)
qed

subsection \<open>Whitespace\<close>

lemma canon_space: "isspace (canon c) \<longleftrightarrow> isspace c" "isspace c \<Longrightarrow> canon c = c"
  by (auto simp: canon_def arabic_chars_def isspace_def)

lemma collapse_not_space: "\<not> isspace c \<Longrightarrow> collapse_spaces (c # cs) = c # collapse_spaces cs"
  by simp

lemma single_spaced_collapse: "single_spaced (collapse_spaces t)"
proof (induction t rule: collapse_spaces.induct)
  case 1
  then show ?case by simp
next
  case (2 c cs)
  show ?case
  proof (cases "isspace c")
    case False
    then show ?thesis using 2 by (cases "collapse_spaces cs") auto
  next
    case True
    show ?thesis
    proof (cases "dropWhile isspace cs")
      case Nil
      have "collapse_spaces (c # cs) = 0x20 # collapse_spaces (dropWhile isspace cs)"
        using True by simp
      also have "\<dots> = [0x20]" by (simp only: Nil collapse_spaces.simps)
      finally show ?thesis by (simp add: isspace_def)
    next
      case (Cons d ds)
      then have "\<not> isspace d" using hd_dropWhile [of isspace cs] by auto
      then have "collapse_spaces (dropWhile isspace cs) = d # collapse_spaces ds"
        using Cons by simp
      then show ?thesis using True 2(1) \<open>\<not> isspace d\<close> by simp
    qed
  qed
qed

lemma single_spaced_Cons: "single_spaced (c # cs) \<Longrightarrow> single_spaced cs"
  by (cases cs) auto

lemma single_spaced_append:
  "single_spaced (xs @ ys) \<Longrightarrow> single_spaced xs \<and> single_spaced ys"
proof (induction xs rule: single_spaced.induct)
  case 1
  then show ?case by simp
next
  case (2 c)
  then show ?case by (cases ys) auto
next
  case (3 c d cs)
  then show ?case by auto
qed

lemma strip_decompose:
  "\<exists>pre post. t = pre @ strip t @ post"
proof -
  let ?u = "dropWhile isspace t"
  have "t = takeWhile isspace t @ ?u" by simp
  moreover have "?u = rev (dropWhile isspace (rev ?u)) @ rev (takeWhile isspace (rev ?u))"
    by (metis rev_append rev_rev_ident takeWhile_dropWhile_id)
  ultimately have "t = takeWhile isspace t @ strip t @ rev (takeWhile isspace (rev ?u))"
    by (simp add: strip_def)
  then show ?thesis by blast
qed

lemma single_spaced_strip: "single_spaced t \<Longrightarrow> single_spaced (strip t)"
  using strip_decompose [of t] single_spaced_append by metis

lemma collapse_single_spaced: "single_spaced t \<Longrightarrow> collapse_spaces t = t"
proof (induction t rule: single_spaced.induct)
  case 1
  then show ?case by simp
next
  case (2 c)
  then show ?case by simp
next
  case (3 c d cs)
  then show ?case by (cases "isspace c") auto
qed

lemma trimmed_strip: "trimmed (strip t)"
proof (cases "strip t = []")
  case True
  then show ?thesis by (simp add: trimmed_def)
next
  case False
  let ?u = "dropWhile isspace t" and ?v = "dropWhile isspace (rev (dropWhile isspace t))"
  have v: "?v \<noteq> []" using False by (simp add: strip_def)
  have u: "?u \<noteq> []"
  proof
    assume a: "?u = []"
    have "?v = []" unfolding a by simp
    then show False using v by blast
  qed
  have hv: "\<not> isspace (hd ?v)" using v hd_dropWhile by blast
  have hu: "\<not> isspace (hd ?u)" using u hd_dropWhile by blast
  have "last ?v = last (rev ?u)"
  proof -
    obtain x where "x \<in> set ?v" using v by (meson last_in_set)
    have "hd ?v \<in> set (rev ?u)" using v by (metis hd_in_set set_dropWhileD)
    then show ?thesis using hv dropWhile_last by metis
  qed
  then have "last ?v = hd ?u" using u by (simp add: last_rev)
  then have "\<not> isspace (hd (strip t))" using hu v by (simp add: strip_def hd_rev)
  moreover have "\<not> isspace (last (strip t))" using hv v by (simp add: strip_def last_rev)
  ultimately show ?thesis by (simp add: trimmed_def)
qed

lemma strip_trimmed: "trimmed t \<Longrightarrow> strip t = t"
proof (cases t)
  case Nil
  then show ?thesis by (simp add: strip_def)
next
  case (Cons c cs)
  assume "trimmed t"
  then have h: "\<not> isspace (hd t)" and l: "\<not> isspace (last t)" using Cons by (auto simp: trimmed_def)
  have "dropWhile isspace t = t" using h Cons by simp
  moreover have "dropWhile isspace (rev t) = rev t"
  proof -
    have keep: "dropWhile P xs = xs" if "xs \<noteq> []" "\<not> P (hd xs)" for P and xs :: ustr
      using that by (cases xs) auto
    have "rev t \<noteq> []" using Cons by simp
    moreover have "\<not> isspace (hd (rev t))"
      using l by (metis hd_rev Cons list.distinct(1))
    ultimately show ?thesis by (rule keep)
  qed
  ultimately show ?thesis by (simp add: strip_def)
qed

lemma set_strip: "set (strip t) \<subseteq> set t"
proof
  fix x assume "x \<in> set (strip t)"
  then have "x \<in> set (dropWhile isspace (rev (dropWhile isspace t)))" by (simp add: strip_def)
  then have "x \<in> set (rev (dropWhile isspace t))" by (rule set_dropWhileD)
  then have "x \<in> set (dropWhile isspace t)" by simp
  then show "x \<in> set t" by (rule set_dropWhileD)
qed

lemma set_collapse: "set (collapse_spaces t) \<subseteq> insert 0x20 (set t)"
proof (induction t rule: collapse_spaces.induct)
  case 1
  then show ?case by simp
next
  case (2 c cs)
  show ?case
  proof (cases "isspace c")
    case True
    have "set (dropWhile isspace cs) \<subseteq> set cs" by (auto dest: set_dropWhileD)
    then show ?thesis using True 2(1) by auto
  next
    case False
    then show ?thesis using 2(2) by auto
  qed
qed

lemma skeleton_chars:
  assumes "c \<in> set (skeleton U s)"
  shows "c = 0x20 \<or> (combining U c = 0 \<and> (\<exists>c0 \<in> set s. c \<in> set (decomposition U c0)))"
proof -
  from assms set_strip have "c \<in> set (collapse_spaces (filter (\<lambda>c. combining U c = 0)
      (concat (map (decomposition U) s))))"
    unfolding skeleton_def by blast
  with set_collapse have "c = 0x20 \<or> c \<in> set (filter (\<lambda>c. combining U c = 0)
      (concat (map (decomposition U) s)))" by blast
  then show ?thesis by auto
qed

lemma canon_cases: "canon c = c \<or> canon c \<in> set (map snd arabic_chars)"
  by (simp add: canon_def arabic_chars_def)

lemma canon_no_key:
  "canon c \<notin> {0x622, 0x623, 0x625, 0x629, 0x649}" "\<not> (0x660 \<le> canon c \<and> canon c \<le> 0x669)"
proof -
  show "canon c \<notin> {0x622, 0x623, 0x625, 0x629, 0x649}"
    by (simp add: canon_def arabic_chars_def)
  have "0x660 \<le> c \<and> c \<le> 0x669 \<longleftrightarrow> c \<in> {0x660, 0x661, 0x662, 0x663, 0x664, 0x665, 0x666,
      0x667, 0x668, 0x669}" for c :: nat
    by (simp; arith)
  then show "\<not> (0x660 \<le> canon c \<and> canon c \<le> 0x669)"
    by (simp add: canon_def arabic_chars_def)
qed

lemma canon_canon: "canon (canon c) = canon c"
  by (simp add: canon_def arabic_chars_def)

lemma canon_table:
  "map canon [0x623, 0x625, 0x622, 0x629, 0x649,
              0x660, 0x661, 0x662, 0x663, 0x664, 0x665, 0x666, 0x667, 0x668, 0x669] =
     [0x627, 0x627, 0x627, 0x647, 0x64A, 0x30, 0x31, 0x32, 0x33, 0x34, 0x35, 0x36, 0x37, 0x38, 0x39]"
  by (simp add: canon_def arabic_chars_def)

lemma single_spaced_map: "single_spaced (map canon t) = single_spaced t"
  by (induction t rule: single_spaced.induct) (auto simp: canon_space)

lemma trimmed_map: "trimmed (map canon t) = trimmed t"
  by (cases "t = []") (auto simp: trimmed_def hd_map last_map canon_space)

lemma single_spaced_nth:
  "single_spaced t \<Longrightarrow> Suc i < length t \<Longrightarrow> \<not> (isspace (t ! i) \<and> isspace (t ! Suc i))"
proof (induction t arbitrary: i rule: single_spaced.induct)
  case (3 c d cs)
  then show ?case by (cases i) auto
qed simp_all

lemma single_spaced_normalize: "single_spaced (normalize_text U s)"
  unfolding normalize_text_eq single_spaced_map skeleton_def
  by (rule single_spaced_strip) (rule single_spaced_collapse)

lemma trimmed_normalize: "trimmed (normalize_text U s)"
  unfolding normalize_text_eq trimmed_map skeleton_def by (rule trimmed_strip)

lemma no_space_fixed:
  assumes "\<forall>c \<in> set t. \<not> isspace c"
  shows "strip (collapse_spaces t) = t"
proof -
  have "single_spaced t" using assms by (induction t rule: single_spaced.induct) auto
  then have "collapse_spaces t = t" by (rule collapse_single_spaced)
  moreover have "trimmed t" using assms by (cases "t = []") (auto simp: trimmed_def)
  ultimately show ?thesis by (simp add: strip_trimmed)
qed

lemma inert_skeleton:
  assumes "\<forall>c \<in> set t. decomposition U c = [c] \<and> combining U c = 0"
  shows "filter (\<lambda>c. combining U c = 0) (concat (map (decomposition U) t)) = t"
  using assms by (induction t) auto

text \<open>
  Claim C9, as stated, fails: \<open>normalize_text\<close> drops the characters of non-zero combining
  class, and a combining mark may have class 0. The combining grapheme joiner U+034F, of
  the block Combining Diacritical Marks, has class 0 and no decomposition, and stays.
\<close>

theorem class_zero_mark_kept_counterexample:
  "combining_diacritical 0x34F \<and> combining ucd0 0x34F = 0 \<and>
   normalize_text ucd0 [0x61, 0x34F] = [0x61, 0x34F]"
  by (simp add: combining_diacritical_def normalize_text_def nfkd_def decomposition0_def
      combining0_def isspace_def strip_def arabic_chars_def replace_char_def)

text \<open>
  Claim C9, amended. When the space and the replacement characters have combining class 0
  (as in Unicode), the output of \<open>normalize_text\<close> has no character of non-zero combining
  class, no two adjacent whitespace characters, none of the five legacy letters and no
  Arabic-Indic digit, and no whitespace at either end. It is the decomposed, collapsed and
  trimmed text with every legacy letter and Arabic-Indic digit replaced by its canonical
  form; a text of characters that the tables leave alone, such as the digits, comes out
  with exactly these replacements.
\<close>

theorem normalize_text_invariants:
  assumes "\<forall>x \<in> set (0x20 # map snd arabic_chars). combining U x = 0"
  shows "(\<forall>c \<in> set (normalize_text U s). combining U c = 0) \<and>
     (\<forall>i. Suc i < length (normalize_text U s) \<longrightarrow>
        \<not> (isspace (normalize_text U s ! i) \<and> isspace (normalize_text U s ! Suc i))) \<and>
     (\<forall>c \<in> set (normalize_text U s).
        c \<notin> {0x622, 0x623, 0x625, 0x629, 0x649} \<and> \<not> (0x660 \<le> c \<and> c \<le> 0x669)) \<and>
     normalize_text U s = map canon (skeleton U s) \<and>
     map canon [0x623, 0x625, 0x622, 0x629, 0x649,
                0x660, 0x661, 0x662, 0x663, 0x664, 0x665, 0x666, 0x667, 0x668, 0x669] =
       [0x627, 0x627, 0x627, 0x647, 0x64A,
        0x30, 0x31, 0x32, 0x33, 0x34, 0x35, 0x36, 0x37, 0x38, 0x39] \<and>
     ((\<forall>c \<in> set s. decomposition U c = [c] \<and> combining U c = 0 \<and> \<not> isspace c) \<longrightarrow>
        normalize_text U s = map canon s) \<and>
     (normalize_text U s = [] \<or>
        (\<not> isspace (hd (normalize_text U s)) \<and> \<not> isspace (last (normalize_text U s))))"
proof (intro conjI)
  show "\<forall>c \<in> set (normalize_text U s). combining U c = 0"
  proof
    fix c assume "c \<in> set (normalize_text U s)"
    then obtain c' where c': "c' \<in> set (skeleton U s)" and c: "c = canon c'"
      unfolding normalize_text_eq by auto
    from canon_cases [of c'] show "combining U c = 0"
    proof
      assume same: "canon c' = c'"
      have "(0x20::nat) \<in> set (0x20 # map snd arabic_chars)" by simp
      then have "combining U 0x20 = 0" using assms by blast
      then show ?thesis using skeleton_chars [OF c'] c same by auto
    next
      assume "canon c' \<in> set (map snd arabic_chars)"
      then have "c \<in> set (0x20 # map snd arabic_chars)" using c by simp
      then show ?thesis using assms by blast
    qed
  qed
  show "\<forall>i. Suc i < length (normalize_text U s) \<longrightarrow>
        \<not> (isspace (normalize_text U s ! i) \<and> isspace (normalize_text U s ! Suc i))"
    using single_spaced_nth [OF single_spaced_normalize] by blast
  show "\<forall>c \<in> set (normalize_text U s).
        c \<notin> {0x622, 0x623, 0x625, 0x629, 0x649} \<and> \<not> (0x660 \<le> c \<and> c \<le> 0x669)"
    unfolding normalize_text_eq using canon_no_key by auto
  show "normalize_text U s = map canon (skeleton U s)" by (rule normalize_text_eq)
  show "map canon [0x623, 0x625, 0x622, 0x629, 0x649,
                0x660, 0x661, 0x662, 0x663, 0x664, 0x665, 0x666, 0x667, 0x668, 0x669] =
       [0x627, 0x627, 0x627, 0x647, 0x64A,
        0x30, 0x31, 0x32, 0x33, 0x34, 0x35, 0x36, 0x37, 0x38, 0x39]"
    by (rule canon_table)
  show "(\<forall>c \<in> set s. decomposition U c = [c] \<and> combining U c = 0 \<and> \<not> isspace c) \<longrightarrow>
        normalize_text U s = map canon s"
  proof
    assume a: "\<forall>c \<in> set s. decomposition U c = [c] \<and> combining U c = 0 \<and> \<not> isspace c"
    then have "filter (\<lambda>c. combining U c = 0) (concat (map (decomposition U) s)) = s"
      using inert_skeleton [of s U] by blast
    moreover have "strip (collapse_spaces s) = s" using a no_space_fixed by blast
    ultimately show "normalize_text U s = map canon s"
      by (simp add: normalize_text_eq skeleton_def)
  qed
  show "normalize_text U s = [] \<or>
        (\<not> isspace (hd (normalize_text U s)) \<and> \<not> isspace (last (normalize_text U s)))"
    using trimmed_normalize [of U s] by (simp add: trimmed_def)
qed

lemma ucd0_targets: "\<forall>x \<in> set (0x20 # map snd arabic_chars). combining ucd0 x = 0"
  by (simp add: arabic_chars_def combining0_def)

lemma normalize_examples:
  "normalize_text ucd0
     ([0x20, 0x623, 0x625, 0x622, 0x629, 0x649, 0x09, 0x0A, 0x660, 0x661, 0x662, 0x663, 0x664,
       0x665, 0x666, 0x667, 0x668, 0x669] @ asc ''  N'' @ [0xE9, 0x64E, 0xA0]) =
   [0x627, 0x627, 0x627, 0x647, 0x64A, 0x20] @ asc ''0123456789 Ne''"
  "normalize_text ucd0 [0x660, 0x661, 0x662, 0x663, 0x664, 0x665, 0x666, 0x667, 0x668, 0x669] =
     asc ''0123456789''"
  by (simp_all add: normalize_text_def nfkd_def decomposition0_def combining0_def isspace_def
      strip_def arabic_chars_def replace_char_def asc_def)

theorem normalize_text_invariants_witness:
  "combining ucd0 0x20 = 0 \<and> combining ucd0 0x627 = 0 \<and>
   normalize_text ucd0
     ([0x20, 0x623, 0x625, 0x622, 0x629, 0x649, 0x09, 0x0A, 0x660, 0x661, 0x662, 0x663, 0x664,
       0x665, 0x666, 0x667, 0x668, 0x669] @ asc ''  N'' @ [0xE9, 0x64E, 0xA0]) =
   [0x627, 0x627, 0x627, 0x647, 0x64A, 0x20] @ asc ''0123456789 Ne'' \<and>
   normalize_text ucd0 [0x660, 0x661, 0x662, 0x663, 0x664, 0x665, 0x666, 0x667, 0x668, 0x669] =
     map canon [0x660, 0x661, 0x662, 0x663, 0x664, 0x665, 0x666, 0x667, 0x668, 0x669] \<and>
   map canon [0x660, 0x661, 0x662, 0x663, 0x664, 0x665, 0x666, 0x667, 0x668, 0x669] =
     asc ''0123456789''"
proof -
  let ?digits = "[0x660, 0x661, 0x662, 0x663, 0x664, 0x665, 0x666, 0x667, 0x668, 0x669] :: ustr"
  have inert: "\<forall>c \<in> set ?digits. decomposition ucd0 c = [c] \<and> combining ucd0 c = 0 \<and> \<not> isspace c"
    by (simp add: decomposition0_def combining0_def isspace_def)
  have "(\<forall>c \<in> set ?digits. decomposition ucd0 c = [c] \<and> combining ucd0 c = 0 \<and> \<not> isspace c) \<longrightarrow>
      normalize_text ucd0 ?digits = map canon ?digits"
    using normalize_text_invariants [OF ucd0_targets, of ?digits] by (elim conjE) assumption
  with inert have a: "normalize_text ucd0 ?digits = map canon ?digits" by (rule rev_mp)
  have b: "map canon ?digits = asc ''0123456789''"
    by (simp add: canon_def arabic_chars_def asc_def)
  have c: "combining ucd0 0x20 = 0" "combining ucd0 0x627 = 0"
    by (simp_all add: combining0_def)
  show ?thesis using a b c normalize_examples(1) by (intro conjI)
qed

lemma normalize_inert:
  assumes "tables_closed U" and "c \<in> set (normalize_text U s)"
  shows "decomposition U c = [c] \<and> combining U c = 0"
proof -
  from assms(1) have h1: "\<And>c d. d \<in> set (decomposition U c) \<Longrightarrow> decomposition U d = [d]"
    and h2: "\<And>x. x \<in> set (0x20 # map snd arabic_chars) \<Longrightarrow>
        decomposition U x = [x] \<and> combining U x = 0"
    unfolding tables_closed_def by blast+
  from assms(2) obtain c' where c': "c' \<in> set (skeleton U s)" and c: "c = canon c'"
    unfolding normalize_text_eq by auto
  from canon_cases [of c'] show ?thesis
  proof
    assume same: "canon c' = c'"
    from skeleton_chars [OF c'] show ?thesis
    proof
      assume "c' = 0x20"
      moreover have "(0x20::nat) \<in> set (0x20 # map snd arabic_chars)" by simp
      ultimately show ?thesis using h2 [of "0x20"] c same by simp
    next
      assume "combining U c' = 0 \<and> (\<exists>c0 \<in> set s. c' \<in> set (decomposition U c0))"
      then show ?thesis using h1 c same by auto
    qed
  next
    assume "canon c' \<in> set (map snd arabic_chars)"
    then have "c \<in> set (0x20 # map snd arabic_chars)" using c by simp
    then show ?thesis by (rule h2)
  qed
qed

text \<open>
  Claim C8. \<open>normalize_text\<close> is idempotent, for tables in which decompositions are full
  and the replacement characters and the space are plain.
\<close>

theorem normalize_text_idempotent:
  assumes "tables_closed U"
  shows "normalize_text U (normalize_text U s) = normalize_text U s"
proof -
  let ?t = "normalize_text U s"
  have "filter (\<lambda>c. combining U c = 0) (concat (map (decomposition U) ?t)) = ?t"
    using normalize_inert [OF assms] by (intro inert_skeleton) blast
  moreover have "collapse_spaces ?t = ?t"
    by (rule collapse_single_spaced) (rule single_spaced_normalize)
  moreover have "strip ?t = ?t" by (rule strip_trimmed) (rule trimmed_normalize)
  ultimately have "skeleton U ?t = ?t" by (simp add: skeleton_def)
  then have "normalize_text U ?t = map canon ?t" by (simp add: normalize_text_eq [of U ?t])
  also have "\<dots> = ?t" by (simp add: normalize_text_eq [of U s] canon_canon)
  finally show ?thesis .
qed

lemma ucd0_closed: "tables_closed ucd0"
proof -
  have "decomposition0 d = [d]" if "d \<in> set (decomposition0 c)" for c d
    using that by (auto simp: decomposition0_def split: if_splits)
  moreover have "\<forall>x \<in> set (0x20 # map snd arabic_chars). decomposition0 x = [x] \<and> combining0 x = 0"
    by (simp add: arabic_chars_def decomposition0_def combining0_def)
  ultimately show ?thesis by (simp add: tables_closed_def)
qed

theorem normalize_text_idempotent_witness:
  "tables_closed ucd0 \<and>
   normalize_text ucd0
     ([0x20, 0x623, 0x625, 0x622, 0x629, 0x649, 0x09, 0x0A, 0x660, 0x661, 0x662, 0x663, 0x664,
       0x665, 0x666, 0x667, 0x668, 0x669] @ asc ''  N'' @ [0xE9, 0x64E, 0xA0]) =
   [0x627, 0x627, 0x627, 0x647, 0x64A, 0x20] @ asc ''0123456789 Ne'' \<and>
   normalize_text ucd0 ([0x627, 0x627, 0x627, 0x647, 0x64A, 0x20] @ asc ''0123456789 Ne'') =
   [0x627, 0x627, 0x627, 0x647, 0x64A, 0x20] @ asc ''0123456789 Ne''"
proof -
  have "normalize_text ucd0 ([0x627, 0x627, 0x627, 0x647, 0x64A, 0x20] @ asc ''0123456789 Ne'') =
      [0x627, 0x627, 0x627, 0x647, 0x64A, 0x20] @ asc ''0123456789 Ne''"
    using normalize_text_idempotent [OF ucd0_closed,
      of "[0x20, 0x623, 0x625, 0x622, 0x629, 0x649, 0x09, 0x0A, 0x660, 0x661, 0x662, 0x663,
          0x664, 0x665, 0x666, 0x667, 0x668, 0x669] @ asc ''  N'' @ [0xE9, 0x64E, 0xA0]"]
    unfolding normalize_examples(1) .
  then show ?thesis using ucd0_closed normalize_examples(1) by (intro conjI)
qed

section \<open>clean_irrelevant_lines after normalize_text\<close>

lemma lits_Nil: "lits [] = Eps" and lits_Cons: "lits (a # cs) = Cat (One (Lit a)) (lits cs)"
  by (simp_all add: lits_def seq_def)

lemma ms_lits_char:
  "e \<in> set (ms U ic s (lits cs) st) \<Longrightarrow> c \<in> set cs \<Longrightarrow> \<not> (ic \<and> iscased U c) \<Longrightarrow> c \<in> set s"
proof (induction cs arbitrary: st)
  case Nil
  then show ?case by simp
next
  case (Cons a cs)
  from Cons.prems(1) have inb: "fst st < length s" and lm: "lit_match U ic a (s ! fst st)"
    and rest: "e \<in> set (ms U ic s (lits cs) (Suc (fst st), snd st))"
    by (auto simp: lits_Cons split: if_splits)
  show ?case
  proof (cases "c = a")
    case True
    then have "s ! fst st = c" using lm Cons.prems(3) by (auto simp: lit_match_def)
    then show ?thesis using inb nth_mem by blast
  next
    case False
    then have "c \<in> set cs" using Cons.prems(2) by simp
    from Cons.IH [OF rest this Cons.prems(3)] show ?thesis .
  qed
qed

lemma lits_no_match:
  "c \<in> set cs \<Longrightarrow> \<not> (ic \<and> iscased U c) \<Longrightarrow> c \<notin> set s \<Longrightarrow> ms U ic s (lits cs) st = []"
  using ms_lits_char [of _ U ic s cs st c] by (cases "ms U ic s (lits cs) st") auto

lemma remove_ar_no_match:
  assumes "\<not> iscased U 0x629" and "0x629 \<notin> set s"
  shows "ms U True s remove_ar st = []" and "ms U True s remove_expiry st = []"
proof -
  have l: "ms U True s (lits cs) st' = []" if "0x629 \<in> set cs" for cs st'
    using lits_no_match [OF that _ assms(2)] assms(1) by simp
  show "ms U True s remove_ar st = []"
    by (simp add: remove_ar_def l)
  show "ms U True s remove_expiry st = []"
    by (simp add: remove_expiry_def seq_def l)
qed

lemma re_sub_no_match:
  assumes "\<And>p. ms U ic s r (p, []) = []"
  shows "re_sub U ic r repl s = s"
proof -
  have "first_match U ic r s [0..<Suc (length s)] = None"
    unfolding first_match_None using assms by blast
  then show ?thesis by (simp add: re_sub_def)
qed

lemma arabic_removals_idle:
  assumes "\<not> iscased U 0x629"
  shows "cleaned_text U text = strip (re_sub U True remove_fr [] (normalize_text U text))"
proof -
  let ?t = "re_sub U True remove_fr [] (normalize_text U text)"
  have sub: "set (sub_from U ic r [] s i) \<subseteq> set s" for ic r s i
  proof (induction U ic r "[] :: ustr" s i rule: sub_from.induct)
    case (1 U ic r s i)
    show ?case
    proof (cases "first_match U ic r s [i..<Suc (length s)]")
      case None
      then show ?thesis by (subst sub_from.simps) (auto dest: in_set_dropD)
    next
      case (Some m)
      have a: "set (slice s i (m_start m)) \<subseteq> set s"
        by (auto simp: slice_def dest: in_set_takeD in_set_dropD)
      show ?thesis
        using Some a 1 [OF Some]
        by (subst sub_from.simps) (auto simp del: sub_from.simps)
    qed
  qed
  have "0x629 \<notin> set (normalize_text U text)"
    unfolding normalize_text_eq using canon_no_key(1) by auto
  then have no: "0x629 \<notin> set ?t" using sub [of True remove_fr "normalize_text U text" 0]
    by (auto simp: re_sub_def)
  have "re_sub U True remove_ar [] ?t = ?t"
    by (rule re_sub_no_match) (rule remove_ar_no_match [OF assms no])
  moreover have "re_sub U True remove_expiry [] ?t = ?t"
    by (rule re_sub_no_match) (rule remove_ar_no_match [OF assms no])
  ultimately show ?thesis
    by (simp add: cleaned_text_def clean_irrelevant_lines_def patterns_to_remove_def)
qed

text \<open>
  Claim C5, evaluated. \<open>extract\<close> cleans the text after normalizing it, and the Arabic
  patterns of \<open>clean_irrelevant_lines\<close> are spelt with teh marbuta, alef with hamza below,
  alef maksura and a fatha, none of which survives \<open>normalize_text\<close>. So in \<open>extract\<close> the
  Arabic title and the damaged line stay in the cleaned text (first equation), although
  \<open>clean_irrelevant_lines\<close> removes both from the same text when it is not normalized
  (second equation). \<open>arabic_removals_idle\<close> above says so for every input.
\<close>

theorem arabic_boilerplate_survives:
  "cleaned_text ucd0
     ([0x627, 0x644, 0x645, 0x645, 0x644, 0x643, 0x629, 0x20,
       0x627, 0x644, 0x645, 0x63A, 0x631, 0x628, 0x64A, 0x629, 0x20,
       0x627, 0x644, 0x62D, 0x629, 0x20, 0x625, 0x644, 0x649, 0x20,
       0x63A, 0x64E, 0x627, 0x64A, 0x629, 0x20] @ asc ''12.2030 AB123456'') =
   [0x627, 0x644, 0x645, 0x645, 0x644, 0x643, 0x647, 0x20,
    0x627, 0x644, 0x645, 0x63A, 0x631, 0x628, 0x64A, 0x647, 0x20,
    0x627, 0x644, 0x62D, 0x647, 0x20, 0x627, 0x644, 0x64A, 0x20,
    0x63A, 0x627, 0x64A, 0x647, 0x20] @ asc ''12.2030 AB123456'' \<and>
   clean_irrelevant_lines ucd0
     ([0x627, 0x644, 0x645, 0x645, 0x644, 0x643, 0x629, 0x20,
       0x627, 0x644, 0x645, 0x63A, 0x631, 0x628, 0x64A, 0x629, 0x20,
       0x627, 0x644, 0x62D, 0x629, 0x20, 0x625, 0x644, 0x649, 0x20,
       0x63A, 0x64E, 0x627, 0x64A, 0x629, 0x20] @ asc ''12.2030 AB123456'') =
   asc ''AB123456''"
  by (simp add: extract0 class0 eval0 strip_def replace_char_def)

end
